theory Spec2Isabelle
  imports Main "HOL-Library.Word"
begin

unbundle bit_operations_syntax

section \<open>Python values and errors\<close>

text \<open>
  Byte strings (Python \<^verbatim>\<open>bytes\<close>) are lists of 8-bit characters. Text (Python
  \<^verbatim>\<open>str\<close>) is a list of code points. A float is its 64-bit pattern; the program
  only ever takes its \<^verbatim>\<open>repr\<close>. The values are those the program handles: the
  data given to \<^verbatim>\<open>store\<close>, the keys, and what the client returns.
\<close>

type_synonym bytes = "char list"
type_synonym str = "nat list"
type_synonym pyfloat = "64 word"

datatype pyval = PNone | PStr str | PBytes bytes | PInt int | PFloat pyfloat

datatype error =
    ResponseError
  | DataError
  | UnicodeEncodeError
  | UnicodeDecodeError
  | AttributeError
  | ValueError
  | TypeError

text \<open>The text of a literal of the source (one code point for each character).\<close>

definition ascii :: "string \<Rightarrow> str" where
  "ascii s = map of_char s"

definition is_ascii :: "string \<Rightarrow> bool" where
  "is_ascii s = list_all (\<lambda>c. (of_char c :: nat) < 128) s"

text \<open>
  What the interpreter looks up in tables that are not part of the program: the Unicode
  character database (white space, decimal digits, printable characters beyond ASCII), the
  shortest representation of a float (\<^verbatim>\<open>repr\<close>) and the float a text denotes
  (\<^verbatim>\<open>float(text)\<close>, which the program never calls and a caller uses to read a stored
  float back). Every function that depends on them takes the tables as its first argument.
\<close>

record pyenv =
  isspace :: "nat \<Rightarrow> bool"
  todecimal :: "nat \<Rightarrow> nat option"
  isprintable :: "nat \<Rightarrow> bool"
  float_repr :: "pyfloat \<Rightarrow> string"
  float_of :: "str \<Rightarrow> pyfloat option"

section \<open>UTF-8\<close>

text \<open>
  \<^verbatim>\<open>str.encode('utf-8')\<close> and \<^verbatim>\<open>bytes.decode('utf-8')\<close>, both strict: a surrogate
  cannot be encoded; overlong forms, surrogates, stray continuation bytes and code points
  above U+10FFFF cannot be decoded.
\<close>

definition surrogate :: "nat \<Rightarrow> bool" where
  "surrogate c = (0xD800 \<le> c \<and> c < 0xE000)"

definition scalar :: "nat \<Rightarrow> bool" where
  "scalar c = (c < 0x110000 \<and> \<not> surrogate c)"

definition encode_point :: "nat \<Rightarrow> nat list option" where
  "encode_point c =
     (if c < 0x80 then Some [c]
      else if c < 0x800 then Some [0xC0 + c div 64, 0x80 + c mod 64]
      else if surrogate c then None
      else if c < 0x10000 then
        Some [0xE0 + c div 4096, 0x80 + c div 64 mod 64, 0x80 + c mod 64]
      else if c < 0x110000 then
        Some [0xF0 + c div 262144, 0x80 + c div 4096 mod 64,
              0x80 + c div 64 mod 64, 0x80 + c mod 64]
      else None)"

fun encode_points :: "str \<Rightarrow> nat list option" where
  "encode_points [] = Some []"
| "encode_points (c # cs) =
     (case encode_point c of
        None \<Rightarrow> None
      | Some bs \<Rightarrow> (case encode_points cs of None \<Rightarrow> None | Some r \<Rightarrow> Some (bs @ r)))"

definition str_encode :: "str \<Rightarrow> error + bytes" where
  "str_encode t =
     (case encode_points t of
        None \<Rightarrow> Inl UnicodeEncodeError
      | Some bs \<Rightarrow> Inr (map char_of bs))"

definition cont :: "nat \<Rightarrow> bool" where
  "cont b = (0x80 \<le> b \<and> b < 0xC0)"

fun decode_points :: "nat list \<Rightarrow> str option" where
  "decode_points [] = Some []"
| "decode_points (b0 # bs) =
     (if b0 < 0x80 then map_option ((#) b0) (decode_points bs)
      else if 0xC2 \<le> b0 \<and> b0 < 0xE0 then
        (case bs of
           b1 # r \<Rightarrow>
             if cont b1
             then map_option ((#) ((b0 - 0xC0) * 64 + (b1 - 0x80))) (decode_points r)
             else None
         | _ \<Rightarrow> None)
      else if 0xE0 \<le> b0 \<and> b0 < 0xF0 then
        (case bs of
           b1 # b2 # r \<Rightarrow>
             if cont b1 \<and> cont b2
                \<and> (if b0 = 0xE0 then 0xA0 \<le> b1 else True)
                \<and> (if b0 = 0xED then b1 < 0xA0 else True)
             then map_option
                    ((#) ((b0 - 0xE0) * 4096 + (b1 - 0x80) * 64 + (b2 - 0x80)))
                    (decode_points r)
             else None
         | _ \<Rightarrow> None)
      else if 0xF0 \<le> b0 \<and> b0 < 0xF5 then
        (case bs of
           b1 # b2 # b3 # r \<Rightarrow>
             if cont b1 \<and> cont b2 \<and> cont b3
                \<and> (if b0 = 0xF0 then 0x90 \<le> b1 else True)
                \<and> (if b0 = 0xF4 then b1 < 0x90 else True)
             then map_option
                    ((#) ((b0 - 0xF0) * 262144 + (b1 - 0x80) * 4096
                          + (b2 - 0x80) * 64 + (b3 - 0x80)))
                    (decode_points r)
             else None
         | _ \<Rightarrow> None)
      else None)"

text \<open>
  \<^verbatim>\<open>value.decode("utf-8")\<close> on what the client returned: \<^verbatim>\<open>None\<close> cannot be
  decoded.
\<close>

definition bytes_decode :: "pyval \<Rightarrow> error + str" where
  "bytes_decode value =
     (case value of
        PBytes b \<Rightarrow>
          (case decode_points (map of_char b) of
             None \<Rightarrow> Inl UnicodeDecodeError
           | Some t \<Rightarrow> Inr t)
      | _ \<Rightarrow> Inl AttributeError)"

section \<open>Integers and text\<close>

text \<open>The decimal form of an integer, as \<^verbatim>\<open>repr\<close> and the store print it.\<close>

fun show_nat :: "nat \<Rightarrow> string" where
  "show_nat n =
     (if n < 10 then [char_of (48 + n)]
      else show_nat (n div 10) @ [char_of (48 + n mod 10)])"

declare show_nat.simps [simp del]

definition show_int :: "int \<Rightarrow> string" where
  "show_int i = (if i < 0 then CHR ''-'' # show_nat (nat (- i)) else show_nat (nat i))"

text \<open>
  \<^verbatim>\<open>int(text)\<close>. Code points from 127 on are first replaced: white space by a blank, a
  decimal digit by its ASCII digit, anything else by a question mark, where the
  replacement stops. Then: white space, an optional sign, digits with single underscores
  between them, white space, and nothing more.
\<close>

fun transform :: "pyenv \<Rightarrow> str \<Rightarrow> str" where
  "transform E [] = []"
| "transform E (ch # r) =
     (if ch < 127 then ch # transform E r
      else if isspace E ch then 32 # transform E r
      else (case todecimal E ch of
              None \<Rightarrow> [63]
            | Some d \<Rightarrow> (48 + d) # transform E r))"

definition py_isspace :: "nat \<Rightarrow> bool" where
  "py_isspace c = (c = 32 \<or> (9 \<le> c \<and> c \<le> 13))"

definition digit_value :: "nat \<Rightarrow> nat option" where
  "digit_value c = (if 48 \<le> c \<and> c \<le> 57 then Some (c - 48) else None)"

fun scan :: "nat \<Rightarrow> bool \<Rightarrow> str \<Rightarrow> (nat \<times> str) option" where
  "scan acc prev_us [] = (if prev_us then None else Some (acc, []))"
| "scan acc prev_us (c # cs) =
     (if c = 95 then (if prev_us then None else scan acc True cs)
      else (case digit_value c of
              Some d \<Rightarrow> scan (acc * 10 + d) False cs
            | None \<Rightarrow> if prev_us then None else Some (acc, c # cs)))"

definition long_from_string :: "str \<Rightarrow> int option" where
  "long_from_string s =
     (let s1 = dropWhile py_isspace s;
          neg = (case s1 of c # _ \<Rightarrow> c = 45 | [] \<Rightarrow> False);
          s2 = (case s1 of c # r \<Rightarrow> if c = 43 \<or> c = 45 then r else s1 | [] \<Rightarrow> [])
      in case s2 of
           [] \<Rightarrow> None
         | c # _ \<Rightarrow>
             if digit_value c = None then None
             else (case scan 0 False s2 of
                     None \<Rightarrow> None
                   | Some (n, rest) \<Rightarrow>
                       if dropWhile py_isspace rest = []
                       then Some (if neg then - int n else int n)
                       else None))"

definition py_int :: "pyenv \<Rightarrow> str \<Rightarrow> error + int" where
  "py_int E t =
     (case long_from_string (transform E t) of
        None \<Rightarrow> Inl ValueError
      | Some n \<Rightarrow> Inr n)"

section \<open>repr and str\<close>

text \<open>
  \<^verbatim>\<open>str(args)\<close> of the decorator is the \<^verbatim>\<open>repr\<close> of a tuple. Code points are written
  as numbers: 39 and 34 are the two quotes, 92 the backslash, 98 the letter b.
\<close>

definition hexdigit :: "nat \<Rightarrow> nat" where
  "hexdigit d = (if d < 10 then 48 + d else 87 + d)"

definition hex :: "nat \<Rightarrow> nat \<Rightarrow> str" where
  "hex width n = map (\<lambda>i. hexdigit (n div 16 ^ (width - 1 - i) mod 16)) [0..<width]"

definition pick_quote :: "nat list \<Rightarrow> nat" where
  "pick_quote s = (if 39 \<in> set s \<and> 34 \<notin> set s then 34 else 39)"

definition escape_str :: "pyenv \<Rightarrow> nat \<Rightarrow> nat \<Rightarrow> str" where
  "escape_str E quote ch =
     (if ch = quote \<or> ch = 92 then [92, ch]
      else if ch = 9 then [92, 116]
      else if ch = 10 then [92, 110]
      else if ch = 13 then [92, 114]
      else if ch < 32 \<or> ch = 127 then [92, 120] @ hex 2 ch
      else if ch < 127 then [ch]
      else if isprintable E ch then [ch]
      else if ch \<le> 0xFF then [92, 120] @ hex 2 ch
      else if ch \<le> 0xFFFF then [92, 117] @ hex 4 ch
      else [92, 85] @ hex 8 ch)"

definition repr_str :: "pyenv \<Rightarrow> str \<Rightarrow> str" where
  "repr_str E s =
     (let quote = pick_quote s
      in [quote] @ concat (map (escape_str E quote) s) @ [quote])"

definition escape_bytes :: "nat \<Rightarrow> nat \<Rightarrow> str" where
  "escape_bytes quote c =
     (if c = quote \<or> c = 92 then [92, c]
      else if c = 9 then [92, 116]
      else if c = 10 then [92, 110]
      else if c = 13 then [92, 114]
      else if c < 32 \<or> 127 \<le> c then [92, 120] @ hex 2 c
      else [c])"

definition repr_bytes :: "bytes \<Rightarrow> str" where
  "repr_bytes b =
     (let quote = pick_quote (map of_char b)
      in [98, quote] @ concat (map (escape_bytes quote) (map of_char b)) @ [quote])"

definition py_repr :: "pyenv \<Rightarrow> pyval \<Rightarrow> str" where
  "py_repr E v =
     (case v of
        PNone \<Rightarrow> ascii ''None''
      | PStr t \<Rightarrow> repr_str E t
      | PBytes b \<Rightarrow> repr_bytes b
      | PInt n \<Rightarrow> ascii (show_int n)
      | PFloat f \<Rightarrow> ascii (float_repr E f))"

definition py_str :: "pyenv \<Rightarrow> pyval \<Rightarrow> str" where
  "py_str E v = (case v of PStr t \<Rightarrow> t | _ \<Rightarrow> py_repr E v)"

fun join_reprs :: "pyenv \<Rightarrow> pyval list \<Rightarrow> str" where
  "join_reprs E [] = []"
| "join_reprs E [a] = py_repr E a"
| "join_reprs E (a # b # r) = py_repr E a @ ascii '', '' @ join_reprs E (b # r)"

definition str_tuple :: "pyenv \<Rightarrow> pyval list \<Rightarrow> str" where
  "str_tuple E args =
     (case args of
        [a] \<Rightarrow> ascii ''('' @ py_repr E a @ ascii '',)''
      | _ \<Rightarrow> ascii ''('' @ join_reprs E args @ ascii '')'')"

section \<open>Random keys\<close>

text \<open>
  \<^verbatim>\<open>uuid4()\<close> draws 16 random bytes, read as one 128-bit number, and sets the variant and
  version bits; \<^verbatim>\<open>str\<close> prints 32 hexadecimal digits in five groups. The random bytes are
  an argument of the model.
\<close>

definition uuid4 :: "128 word \<Rightarrow> 128 word" where
  "uuid4 r =
     (let i1 = r AND NOT (push_bit 48 0xc000);
          i2 = i1 OR push_bit 48 0x8000;
          i3 = i2 AND NOT (push_bit 64 0xf000)
      in i3 OR push_bit 76 4)"

definition str_uuid :: "128 word \<Rightarrow> str" where
  "str_uuid u =
     (let h = hex 32 (unat u)
      in take 8 h @ [45] @ take 4 (drop 8 h) @ [45] @ take 4 (drop 12 h) @ [45]
         @ take 4 (drop 16 h) @ [45] @ drop 20 h)"

definition random_key :: "128 word \<Rightarrow> str" where
  "random_key rnd = str_uuid (uuid4 rnd)"

section \<open>The key-value store\<close>

text \<open>
  The store is an external server. Its state is the keyspace of the database the
  connection selects (\<^verbatim>\<open>redis.Redis()\<close> selects database 0 of the local server, in
  \<^verbatim>\<open>Cache.__init__\<close> and in \<^verbatim>\<open>replay\<close> alike), together with the commands the
  server has received, oldest first, each named after the client call that sends it. A key
  holds a byte string or a list of byte strings.
  The commands follow the Redis command reference: a command on a key of the wrong kind is
  refused, and so is \<^verbatim>\<open>INCR\<close> on a string that is not the decimal form of an integer.
  Resource limits of the server (memory, the 64-bit range of a counter, the maximal length
  of a list) and the loss of the connection are left out.
\<close>

datatype rvalue = RString bytes | RList "bytes list"

datatype command =
    GET bytes
  | SET bytes bytes
  | INCR bytes
  | RPUSH bytes bytes
  | LRANGE bytes int int
  | FLUSHDB

record redis =
  db :: "bytes \<rightharpoonup> rvalue"
  log :: "command list"

type_synonym 'a io = "redis \<Rightarrow> (error + 'a) \<times> redis"

text \<open>An exception ends the call; the state reached so far stays.\<close>

definition and_then :: "(error + 'a) \<times> redis \<Rightarrow> ('a \<Rightarrow> 'b io) \<Rightarrow> (error + 'b) \<times> redis" where
  "and_then m f = (case m of (Inl e, s) \<Rightarrow> (Inl e, s) | (Inr x, s) \<Rightarrow> f x s)"

definition received :: "command \<Rightarrow> redis \<Rightarrow> redis" where
  "received c s = s\<lparr>log := log s @ [c]\<rparr>"

definition is_digit :: "char \<Rightarrow> bool" where
  "is_digit c = (48 \<le> (of_char c :: nat) \<and> (of_char c :: nat) \<le> 57)"

text \<open>
  The store reads a string as an integer only in its canonical decimal form: an optional
  minus sign and digits, with no leading zero, no blank and no plus sign.
\<close>

definition string2ll :: "bytes \<Rightarrow> int option" where
  "string2ll b =
     (let neg = (case b of c # _ \<Rightarrow> c = CHR ''-'' | [] \<Rightarrow> False);
          ds = (if neg then tl b else b)
      in if ds = [] \<or> \<not> list_all is_digit ds then None
         else
           (let n = foldl (\<lambda>a c. a * 10 + (of_char c - 48)) (0::nat) ds;
                v = (if neg then - int n else int n)
            in if show_int v = b then Some v else None))"

definition exec_get :: "bytes \<Rightarrow> pyval io" where
  "exec_get key s =
     (let s' = received (GET key) s
      in case db s key of
           None \<Rightarrow> (Inr PNone, s')
         | Some (RString b) \<Rightarrow> (Inr (PBytes b), s')
         | Some (RList _) \<Rightarrow> (Inl ResponseError, s'))"

definition exec_set :: "bytes \<Rightarrow> bytes \<Rightarrow> unit io" where
  "exec_set key v s = (Inr (), (received (SET key v) s)\<lparr>db := (db s)(key \<mapsto> RString v)\<rparr>)"

definition exec_incr :: "bytes \<Rightarrow> int io" where
  "exec_incr key s =
     (let s' = received (INCR key) s
      in case db s key of
           None \<Rightarrow> (Inr 1, s'\<lparr>db := (db s)(key \<mapsto> RString (show_int 1))\<rparr>)
         | Some (RString b) \<Rightarrow>
             (case string2ll b of
                None \<Rightarrow> (Inl ResponseError, s')
              | Some n \<Rightarrow> (Inr (n + 1), s'\<lparr>db := (db s)(key \<mapsto> RString (show_int (n + 1)))\<rparr>))
         | Some (RList _) \<Rightarrow> (Inl ResponseError, s'))"

definition exec_rpush :: "bytes \<Rightarrow> bytes \<Rightarrow> nat io" where
  "exec_rpush key v s =
     (let s' = received (RPUSH key v) s
      in case db s key of
           None \<Rightarrow> (Inr 1, s'\<lparr>db := (db s)(key \<mapsto> RList [v])\<rparr>)
         | Some (RList l) \<Rightarrow> (Inr (length l + 1), s'\<lparr>db := (db s)(key \<mapsto> RList (l @ [v]))\<rparr>)
         | Some (RString _) \<Rightarrow> (Inl ResponseError, s'))"

definition slice :: "bytes list \<Rightarrow> int \<Rightarrow> int \<Rightarrow> bytes list" where
  "slice l start stop =
     (let llen = int (length l);
          start1 = (if start < 0 then llen + start else start);
          stop1 = (if stop < 0 then llen + stop else stop);
          start2 = (if start1 < 0 then 0 else start1)
      in if start2 > stop1 \<or> start2 \<ge> llen then []
         else
           (let stop2 = (if stop1 \<ge> llen then llen - 1 else stop1)
            in take (nat (stop2 - start2 + 1)) (drop (nat start2) l)))"

definition exec_lrange :: "bytes \<Rightarrow> int \<Rightarrow> int \<Rightarrow> bytes list io" where
  "exec_lrange key start stop s =
     (let s' = received (LRANGE key start stop) s
      in case db s key of
           None \<Rightarrow> (Inr [], s')
         | Some (RList l) \<Rightarrow> (Inr (slice l start stop), s')
         | Some (RString _) \<Rightarrow> (Inl ResponseError, s'))"

definition exec_flushdb :: "unit io" where
  "exec_flushdb s = (Inr (), (received FLUSHDB s)\<lparr>db := Map.empty\<rparr>)"

section \<open>The client\<close>

text \<open>
  The client turns every argument of a command into bytes before it sends anything: bytes
  as they are, an integer or a float by its \<^verbatim>\<open>repr\<close>, text by UTF-8; \<^verbatim>\<open>None\<close> is
  refused. When an argument cannot be encoded, no command reaches the server.
\<close>

definition encode :: "pyenv \<Rightarrow> pyval \<Rightarrow> error + bytes" where
  "encode E v =
     (case v of
        PBytes b \<Rightarrow> Inr b
      | PInt n \<Rightarrow> str_encode (py_repr E (PInt n))
      | PFloat f \<Rightarrow> str_encode (py_repr E (PFloat f))
      | PStr t \<Rightarrow> str_encode t
      | PNone \<Rightarrow> Inl DataError)"

definition packed :: "error + 'a \<Rightarrow> ('a \<Rightarrow> 'b io) \<Rightarrow> 'b io" where
  "packed r f s = (case r of Inl e \<Rightarrow> (Inl e, s) | Inr x \<Rightarrow> f x s)"

definition Redis_get :: "pyenv \<Rightarrow> str \<Rightarrow> pyval io" where
  "Redis_get E name = packed (encode E (PStr name)) exec_get"

definition Redis_set :: "pyenv \<Rightarrow> str \<Rightarrow> pyval \<Rightarrow> unit io" where
  "Redis_set E name v =
     packed (encode E (PStr name)) (\<lambda>key. packed (encode E v) (\<lambda>b. exec_set key b))"

definition Redis_incr :: "pyenv \<Rightarrow> str \<Rightarrow> int io" where
  "Redis_incr E name = packed (encode E (PStr name)) exec_incr"

definition Redis_rpush :: "pyenv \<Rightarrow> str \<Rightarrow> pyval \<Rightarrow> nat io" where
  "Redis_rpush E name v =
     packed (encode E (PStr name)) (\<lambda>key. packed (encode E v) (\<lambda>b. exec_rpush key b))"

definition Redis_lrange :: "pyenv \<Rightarrow> str \<Rightarrow> int \<Rightarrow> int \<Rightarrow> bytes list io" where
  "Redis_lrange E name start stop =
     packed (encode E (PStr name)) (\<lambda>key. exec_lrange key start stop)"

definition Redis_flushdb :: "unit io" where
  "Redis_flushdb = exec_flushdb"

section \<open>The decorators\<close>

text \<open>
  A decorated function is its qualified name and what a call does, given the positional
  arguments. Both decorators keep the name (\<^verbatim>\<open>@wraps\<close>) and replace the call by a
  wrapper. Keyword arguments, which the wrappers hand on and do not record, are not
  modelled: a call gives its data by position.
\<close>

record pymethod =
  qualname :: str
  call :: "pyval list \<Rightarrow> pyval io"

definition count_calls :: "pyenv \<Rightarrow> pymethod \<Rightarrow> pymethod" where
  "count_calls E meth =
     (let key = qualname meth
      in \<lparr>qualname = qualname meth,
          call = (\<lambda>args s.
            and_then (Redis_incr E key s) (\<lambda>_. call meth args))\<rparr>)"

definition call_history :: "pyenv \<Rightarrow> pymethod \<Rightarrow> pymethod" where
  "call_history E meth =
     \<lparr>qualname = qualname meth,
      call = (\<lambda>args s.
        let input = str_tuple E args
        in and_then (Redis_rpush E (qualname meth @ ascii '':inputs'') (PStr input) s) (\<lambda>_ s1.
           and_then (call meth args s1) (\<lambda>r s2.
             let output = py_str E r
             in and_then (Redis_rpush E (qualname meth @ ascii '':outputs'') (PStr output) s2)
                  (\<lambda>_ s3. (Inr (PStr output), s3)))))\<rparr>"

section \<open>The cache\<close>

text \<open>
  \<^verbatim>\<open>Cache.__init__\<close>: open a connection and flush the database. The object holds
  nothing but the connection, so the model returns the state of the server.
\<close>

definition Cache_init :: "unit io" where
  "Cache_init = Redis_flushdb"

text \<open>
  The body of \<^verbatim>\<open>store\<close>, and the function the class binds to that name: the source writes
  \<^verbatim>\<open>@call_history\<close> above \<^verbatim>\<open>@count_calls\<close> above the definition.
\<close>

definition store :: "pyenv \<Rightarrow> 128 word \<Rightarrow> pymethod" where
  "store E rnd =
     \<lparr>qualname = ascii ''Cache.store'',
      call = (\<lambda>args s.
        case args of
          [data] \<Rightarrow>
            and_then (Redis_set E (random_key rnd) data s)
              (\<lambda>_ s'. (Inr (PStr (random_key rnd)), s'))
        | _ \<Rightarrow> (Inl TypeError, s))\<rparr>"

definition Cache_store :: "pyenv \<Rightarrow> 128 word \<Rightarrow> pymethod" where
  "Cache_store E rnd = call_history E (count_calls E (store E rnd))"

text \<open>\<^verbatim>\<open>get\<close>: the conversion is \<open>None\<close> when the caller gives none.\<close>

definition Cache_get :: "pyenv \<Rightarrow> str \<Rightarrow> (pyval \<Rightarrow> error + pyval) option \<Rightarrow> pyval io" where
  "Cache_get E key fn s =
     and_then (Redis_get E key s) (\<lambda>value s'.
       case fn of
         Some f \<Rightarrow> (f value, s')
       | None \<Rightarrow> (Inr value, s'))"

definition Cache_get_str :: "pyenv \<Rightarrow> str \<Rightarrow> str io" where
  "Cache_get_str E key s =
     and_then (Redis_get E key s) (\<lambda>value s'. (bytes_decode value, s'))"

text \<open>\<^verbatim>\<open>get_int\<close>: the read is outside the \<^verbatim>\<open>try\<close>, the conversion inside.\<close>

definition Cache_get_int :: "pyenv \<Rightarrow> str \<Rightarrow> int io" where
  "Cache_get_int E key s =
     and_then (Redis_get E key s) (\<lambda>value s'.
       (Inr (case bytes_decode value of
               Inl _ \<Rightarrow> 0
             | Inr t \<Rightarrow> (case py_int E t of Inl _ \<Rightarrow> 0 | Inr n \<Rightarrow> n)), s'))"

section \<open>replay\<close>

text \<open>
  \<^verbatim>\<open>replay\<close> prints lines; the model returns the lines printed, the outcome, and the
  state of the server. The loop walks the pairs of \<^verbatim>\<open>zip(ins, outs)\<close>.
\<close>

definition decoded :: "bytes \<Rightarrow> str" where
  "decoded b = (case bytes_decode (PBytes b) of Inl _ \<Rightarrow> [] | Inr t \<Rightarrow> t)"

fun replay_loop :: "str \<Rightarrow> (bytes \<times> bytes) list \<Rightarrow> str list" where
  "replay_loop f_name [] = []"
| "replay_loop f_name ((i, o') # rest) =
     (f_name @ ascii ''(*'' @ decoded i @ ascii '') -> '' @ decoded o')
     # replay_loop f_name rest"

definition replay :: "pyenv \<Rightarrow> pymethod \<Rightarrow> redis \<Rightarrow> str list \<times> (error + unit) \<times> redis" where
  "replay E fn r =
     (let f_name = qualname fn
      in case Redis_get E f_name r of
           (Inl e, r1) \<Rightarrow> ([], Inl e, r1)
         | (Inr v, r1) \<Rightarrow>
             (let n_calls = (case bytes_decode v of Inl _ \<Rightarrow> PInt 0 | Inr t \<Rightarrow> PStr t);
                  header = f_name @ ascii '' was called '' @ py_str E n_calls @ ascii '' times:''
              in case Redis_lrange E (f_name @ ascii '':inputs'') 0 (- 1) r1 of
                   (Inl e, r2) \<Rightarrow> ([header], Inl e, r2)
                 | (Inr ins, r2) \<Rightarrow>
                     (case Redis_lrange E (f_name @ ascii '':outputs'') 0 (- 1) r2 of
                        (Inl e, r3) \<Rightarrow> ([header], Inl e, r3)
                      | (Inr outs, r3) \<Rightarrow>
                          (header # replay_loop f_name (zip ins outs), Inr (), r3))))"

section \<open>Listing the documents of a collection\<close>

text \<open>
  A collection is given by its documents in the order in which a cursor with no filter
  yields them; \<^verbatim>\<open>find()\<close> returns that cursor, and the comprehension of
  \<^verbatim>\<open>list_all\<close> walks it.
\<close>

record 'doc collection =
  documents :: "'doc list"

definition find :: "'doc collection \<Rightarrow> 'doc list" where
  "find c = documents c"

fun comprehension :: "'doc list \<Rightarrow> 'doc list" where
  "comprehension [] = []"
| "comprehension (doc # docs) = doc # comprehension docs"

definition list_all_docs :: "'doc collection option \<Rightarrow> 'doc list" where
  "list_all_docs mongo_collection =
     (case mongo_collection of
        None \<Rightarrow> []
      | Some c \<Rightarrow> comprehension (find c))"

section \<open>Vocabulary of the properties\<close>

text \<open>
  The values \<^verbatim>\<open>store\<close> is meant for: text (of Unicode scalar values), bytes, integers
  and floats.
\<close>

definition supported :: "pyval \<Rightarrow> bool" where
  "supported v =
     (case v of
        PNone \<Rightarrow> False
      | PStr t \<Rightarrow> list_all scalar t
      | PBytes _ \<Rightarrow> True
      | PInt _ \<Rightarrow> True
      | PFloat _ \<Rightarrow> True)"

text \<open>
  What a key holds, read as a list (an absent key is the empty list) or as a counter (an
  absent key counts as zero).
\<close>

definition holds_list :: "redis \<Rightarrow> bytes \<Rightarrow> bytes list \<Rightarrow> bool" where
  "holds_list s key l =
     (case db s key of
        None \<Rightarrow> l = []
      | Some (RList l') \<Rightarrow> l = l'
      | Some (RString _) \<Rightarrow> False)"

definition holds_count :: "redis \<Rightarrow> bytes \<Rightarrow> int \<Rightarrow> bool" where
  "holds_count s key n =
     (case db s key of
        None \<Rightarrow> n = 0
      | Some (RString b) \<Rightarrow> string2ll b = Some n
      | Some (RList _) \<Rightarrow> False)"

text \<open>
  The state in which the decorators of \<^verbatim>\<open>store\<close> find their three keys as they leave
  them: a counter and two lists.
\<close>

definition bookkeeping :: "redis \<Rightarrow> int \<Rightarrow> bytes list \<Rightarrow> bytes list \<Rightarrow> bool" where
  "bookkeeping s n ins outs =
     (holds_count s ''Cache.store'' n
      \<and> holds_list s ''Cache.store:inputs'' ins
      \<and> holds_list s ''Cache.store:outputs'' outs)"

text \<open>A caller that makes one call of \<^verbatim>\<open>store\<close> after another, each with its data.\<close>

fun store_sequence :: "pyenv \<Rightarrow> (128 word \<times> pyval) list \<Rightarrow> redis
    \<Rightarrow> (error + pyval) list \<times> redis" where
  "store_sequence E [] s = ([], s)"
| "store_sequence E ((rnd, data) # rest) s =
     (case call (Cache_store E rnd) [data] s of
        (r, s1) \<Rightarrow>
          (case store_sequence E rest s1 of
             (rs, s2) \<Rightarrow> (r # rs, s2)))"

text \<open>
  A conversion a caller can give to \<^verbatim>\<open>get\<close> to read a float back:
  \<^verbatim>\<open>fn=lambda d: float(d.decode("utf-8"))\<close>.
\<close>

definition to_float :: "pyenv \<Rightarrow> pyval \<Rightarrow> error + pyval" where
  "to_float E value =
     (case bytes_decode value of
        Inl e \<Rightarrow> Inl e
      | Inr t \<Rightarrow> (case float_of E t of None \<Rightarrow> Inl ValueError | Some f \<Rightarrow> Inr (PFloat f)))"

text \<open>
  A small interpreter and an empty server. The tables know nothing beyond ASCII; of the
  floats they know the patterns of 0.0 and 1.0, and print any other as \<^verbatim>\<open>nan\<close>.
\<close>

definition plain :: pyenv where
  "plain =
     \<lparr>isspace = (\<lambda>_. False), todecimal = (\<lambda>_. None), isprintable = (\<lambda>_. False),
      float_repr =
        (\<lambda>f. if f = 0 then ''0.0'' else if f = 0x3FF0000000000000 then ''1.0'' else ''nan''),
      float_of =
        (\<lambda>t. if t = ascii ''0.0'' then Some 0
             else if t = ascii ''1.0'' then Some 0x3FF0000000000000
             else None)\<rparr>"

definition blank :: redis where
  "blank = \<lparr>db = Map.empty, log = []\<rparr>"

section \<open>Auxiliary facts\<close>

lemma comb64: "x = q * 64 + r \<Longrightarrow> q = a * 64 + b \<Longrightarrow> x = a * 4096 + b * 64 + (r::nat)"
  by simp

lemma split3:
  fixes c :: nat
  shows "c = c div 4096 * 4096 + c div 64 mod 64 * 64 + c mod 64"
proof -
  have 1: "c div 64 div 64 = c div 4096" by (simp add: div_mult2_eq)
  have 2: "c = c div 64 * 64 + c mod 64" by simp
  have 3: "c div 64 = c div 64 div 64 * 64 + c div 64 mod 64" by simp
  show ?thesis
    using comb64 [OF 2 3] unfolding 1 .
qed

lemma comb4096: "x = q * 4096 + r \<Longrightarrow> q = a * 64 + b \<Longrightarrow> x = a * 262144 + b * 4096 + (r::nat)"
  by simp

lemma split4:
  fixes c :: nat
  shows "c = c div 262144 * 262144 + c div 4096 mod 64 * 4096 + c div 64 mod 64 * 64 + c mod 64"
proof -
  have 1: "c div 4096 div 64 = c div 262144" by (simp add: div_mult2_eq)
  have 2: "c = c div 4096 * 4096 + (c div 64 mod 64 * 64 + c mod 64)"
    using split3 [of c] by (simp only: add.assoc)
  have 3: "c div 4096 = c div 4096 div 64 * 64 + c div 4096 mod 64" by simp
  show ?thesis
    using comb4096 [OF 2 3] unfolding 1 by (simp only: add.assoc)
qed

lemma dec2:
  assumes "0xC2 \<le> b0" "b0 < 0xE0" "cont b1"
  shows "decode_points (b0 # b1 # rest) =
     map_option ((#) ((b0 - 0xC0) * 64 + (b1 - 0x80))) (decode_points rest)"
  using assms by simp

lemma dec3:
  assumes "a < 16" "cont b1" "cont b2" "a = 0 \<Longrightarrow> 0xA0 \<le> b1" "a = 13 \<Longrightarrow> b1 < 0xA0"
  shows "decode_points ((0xE0 + a) # b1 # b2 # rest) =
     map_option ((#) (a * 4096 + (b1 - 0x80) * 64 + (b2 - 0x80))) (decode_points rest)"
  using assms by simp

lemma dec4:
  assumes "a < 5" "cont b1" "cont b2" "cont b3" "a = 0 \<Longrightarrow> 0x90 \<le> b1" "a = 4 \<Longrightarrow> b1 < 0x90"
  shows "decode_points ((0xF0 + a) # b1 # b2 # b3 # rest) =
     map_option ((#) (a * 262144 + (b1 - 0x80) * 4096 + (b2 - 0x80) * 64 + (b3 - 0x80)))
       (decode_points rest)"
  using assms by simp

lemma enc1: "c < 0x80 \<Longrightarrow> encode_point c = Some [c]"
  by (simp add: encode_point_def)

lemma enc2: "0x80 \<le> c \<Longrightarrow> c < 0x800 \<Longrightarrow>
    encode_point c = Some [0xC0 + c div 64, 0x80 + c mod 64]"
  by (simp add: encode_point_def)

lemma enc3: "0x800 \<le> c \<Longrightarrow> c < 0x10000 \<Longrightarrow> \<not> surrogate c \<Longrightarrow>
    encode_point c = Some [0xE0 + c div 4096, 0x80 + c div 64 mod 64, 0x80 + c mod 64]"
  by (simp add: encode_point_def)

lemma enc4: "0x10000 \<le> c \<Longrightarrow> c < 0x110000  \<Longrightarrow>
    encode_point c = Some [0xF0 + c div 262144, 0x80 + c div 4096 mod 64,
              0x80 + c div 64 mod 64, 0x80 + c mod 64]"
  by (simp add: encode_point_def surrogate_def)

lemma enc_cases:
  assumes "encode_point c = Some bs"
  obtains "c < 0x80" | "0x80 \<le> c" "c < 0x800" | "0x800 \<le> c" "c < 0x10000" "\<not> surrogate c"
    | "0x10000 \<le> c" "c < 0x110000"
  using assms unfolding encode_point_def by (meson not_le_imp_less option.distinct(1))

lemma cont_mod: "cont (0x80 + x mod 64)"
  by (simp add: cont_def)

lemma lin3:
  fixes a b d :: nat
  assumes "c = a * 4096 + b * 64 + d" "b < 64" "d < 64" "0x800 \<le> c" "c < 0x10000"
    "\<not> (0xD800 \<le> c \<and> c < 0xE000)"
  shows "a < 16" "a = 0 \<Longrightarrow> 32 \<le> b" "a = 13 \<Longrightarrow> b < 32"
  using assms by linarith+

lemma lin4:
  fixes a b d e :: nat
  assumes "c = a * 262144 + b * 4096 + d * 64 + e" "b < 64" "d < 64" "e < 64"
     "0x10000 \<le> c" "c < 0x110000"
  shows "a < 5" "a = 0 \<Longrightarrow> 16 \<le> b" "a = 4 \<Longrightarrow> b < 16"
  using assms by linarith+

lemma decode_encode_point:
  assumes "encode_point c = Some bs"
  shows "decode_points (bs @ rest) = map_option ((#) c) (decode_points rest)"
  using assms
proof (cases rule: enc_cases)
  case 1
  have "bs = [c]" using assms enc1 [OF 1] by simp
  then show ?thesis using 1 by simp
next
  case 2
  have bs: "bs = [0xC0 + c div 64, 0x80 + c mod 64]"
    using assms enc2 [OF 2] by simp
  have "0xC2 \<le> 0xC0 + c div 64" "0xC0 + c div 64 < 0xE0"
    using 2 by simp_all
  from dec2 [OF this cont_mod, of c rest] show ?thesis
    unfolding bs by simp
next
  case 3
  define a where "a = c div 4096"
  define b where "b = c div 64 mod 64"
  define d where "d = c mod 64"
  have c: "c = a * 4096 + b * 64 + d"
    unfolding a_def b_def d_def by (rule split3)
  have lt: "b < 64" "d < 64" by (simp_all add: b_def d_def)
  have bs: "bs = [0xE0 + a, 0x80 + b, 0x80 + d]"
    using assms enc3 [OF 3] by (simp add: a_def b_def d_def)
  note l = lin3 [OF c lt 3(1,2) 3(3) [unfolded surrogate_def]]
  have "cont (0x80 + b)" "cont (0x80 + d)"
    using lt by (simp_all add: cont_def)
  from dec3 [OF l(1) this, of rest] l(2,3) show ?thesis
    unfolding bs c by simp
next
  case 4
  define a where "a = c div 262144"
  define b where "b = c div 4096 mod 64"
  define d where "d = c div 64 mod 64"
  define e where "e = c mod 64"
  have c: "c = a * 262144 + b * 4096 + d * 64 + e"
    unfolding a_def b_def d_def e_def by (rule split4)
  have lt: "b < 64" "d < 64" "e < 64" by (simp_all add: b_def d_def e_def)
  have bs: "bs = [0xF0 + a, 0x80 + b, 0x80 + d, 0x80 + e]"
    using assms enc4 [OF 4] by (simp add: a_def b_def d_def e_def)
  note l = lin4 [OF c lt 4]
  have "cont (0x80 + b)" "cont (0x80 + d)" "cont (0x80 + e)"
    using lt by (simp_all add: cont_def)
  from dec4 [OF l(1) this, of rest] l(2,3) show ?thesis
    unfolding bs c by simp
qed

lemma mod64_byte: "(x::nat) mod 64 < 128"
proof -
  have "x mod 64 < 64" by simp
  then show ?thesis by linarith
qed

lemma encode_point_byte:
  assumes "encode_point c = Some bs"
  shows "list_all (\<lambda>b. b < 256) bs"
  using assms
proof (cases rule: enc_cases)
  case 1
  have "bs = [c]" using assms enc1 [OF 1] by simp
  then show ?thesis using 1 by simp
next
  case 2
  have "c div 64 < 32" using 2 by simp
  moreover have "bs = [0xC0 + c div 64, 0x80 + c mod 64]"
    using assms enc2 [OF 2] by simp
  ultimately show ?thesis by (simp add: mod64_byte)
next
  case 3
  have "c div 4096 < 16" using 3 by simp
  moreover have "bs = [0xE0 + c div 4096, 0x80 + c div 64 mod 64, 0x80 + c mod 64]"
    using assms enc3 [OF 3] by simp
  ultimately show ?thesis by (simp add: mod64_byte)
next
  case 4
  have "c div 262144 < 5" using 4 by simp
  moreover have "bs = [0xF0 + c div 262144, 0x80 + c div 4096 mod 64,
              0x80 + c div 64 mod 64, 0x80 + c mod 64]"
    using assms enc4 [OF 4] by simp
  ultimately show ?thesis by (simp add: mod64_byte)
qed

lemma encode_points_byte:
  "encode_points t = Some bs \<Longrightarrow> list_all (\<lambda>b. b < 256) bs"
proof (induction t arbitrary: bs)
  case Nil
  then show ?case by simp
next
  case (Cons c cs)
  then show ?case
    by (auto split: option.splits dest: encode_point_byte)
qed

lemma decode_encode_points:
  "encode_points t = Some bs \<Longrightarrow> decode_points bs = Some t"
proof (induction t arbitrary: bs)
  case Nil
  then show ?case by simp
next
  case (Cons c cs)
  then obtain b r where "encode_point c = Some b" "encode_points cs = Some r" "bs = b @ r"
    by (auto split: option.splits)
  then show ?case using Cons.IH [of r] decode_encode_point [of c b r] by simp
qed

lemma map_of_char_char_of:
  "list_all (\<lambda>b. b < 256) bs \<Longrightarrow> map of_char (map char_of bs) = (bs :: nat list)"
  by (induction bs) simp_all

lemma decode_str_encode:
  assumes "str_encode t = Inr b"
  shows "bytes_decode (PBytes b) = Inr t"
proof -
  obtain bs where bs: "encode_points t = Some bs" "b = map char_of bs"
    using assms by (auto simp: str_encode_def split: option.splits)
  have "map of_char b = bs"
    using bs encode_points_byte map_of_char_char_of by blast
  then show ?thesis
    using decode_encode_points [OF bs(1)] by (simp add: bytes_decode_def)
qed

lemma encode_points_ascii: "list_all (\<lambda>c. c < 128) t \<Longrightarrow> encode_points t = Some t"
  by (induction t) (simp_all add: enc1)

lemma str_encode_ascii: "list_all (\<lambda>c. c < 128) t \<Longrightarrow> str_encode t = Inr (map char_of t)"
  by (simp add: str_encode_def encode_points_ascii)

lemma str_encode_ascii_literal: "is_ascii s \<Longrightarrow> str_encode (ascii s) = Inr s"
proof -
  assume a: "is_ascii s"
  then have "list_all (\<lambda>c. c < 128) (ascii s)"
    by (induction s) (simp_all add: is_ascii_def ascii_def)
  moreover have "map char_of (ascii s) = s"
    by (induction s) (simp_all add: ascii_def)
  ultimately show ?thesis by (simp add: str_encode_ascii)
qed

lemma ascii_append: "ascii a @ ascii b = ascii (a @ b)"
  by (simp add: ascii_def)

lemma show_nat_digits: "list_all is_digit (show_nat n)"
proof (induction n rule: show_nat.induct)
  case (1 n)
  show ?case
  proof (cases "n < 10")
    case True
    then show ?thesis by (subst show_nat.simps) (simp add: is_digit_def)
  next
    case False
    have "n mod 10 < 10" by simp
    then have "is_digit (char_of (48 + n mod 10))"
      unfolding is_digit_def by simp
    with False 1 show ?thesis by (subst show_nat.simps) simp
  qed
qed

lemma show_nat_nonempty: "show_nat n \<noteq> []"
  by (subst show_nat.simps) simp

lemma scan_digit: "d < 10 \<Longrightarrow> scan a b ((48 + d) # rest) = scan (a * 10 + d) False rest"
  by (simp add: digit_value_def)

lemma scan_show_nat:
  "scan acc b (ascii (show_nat n) @ rest) = scan (acc * 10 ^ length (show_nat n) + n) False rest"
proof (induction n arbitrary: acc b rest rule: show_nat.induct)
  case (1 n)
  show ?case
  proof (cases "n < 10")
    case True
    then have s: "show_nat n = [char_of (48 + n)]" by (subst show_nat.simps) simp
    show ?thesis using True scan_digit [OF True, of acc b rest] unfolding s by (simp add: ascii_def)
  next
    case False
    then have s: "show_nat n = show_nat (n div 10) @ [char_of (48 + n mod 10)]"
      by (subst show_nat.simps) simp
    have d: "of_char (char_of (48 + n mod 10)) = 48 + n mod 10"
    proof -
      have "n mod 10 < 10" by simp
      then show ?thesis by simp
    qed
    have "scan acc b (ascii (show_nat n) @ rest)
          = scan acc b (ascii (show_nat (n div 10)) @ ((48 + n mod 10) # rest))"
      unfolding s by (simp add: ascii_def d)
    also have "\<dots> = scan (acc * 10 ^ length (show_nat (n div 10)) + n div 10) False
                        ((48 + n mod 10) # rest)"
      using 1 [OF False] by simp
    also have "\<dots> = scan ((acc * 10 ^ length (show_nat (n div 10)) + n div 10) * 10 + n mod 10)
                        False rest"
      by (rule scan_digit) simp
    also have "(acc * 10 ^ length (show_nat (n div 10)) + n div 10) * 10 + n mod 10
               = acc * 10 ^ length (show_nat n) + n"
      unfolding s by (simp add: algebra_simps)
    finally show ?thesis .
  qed
qed

lemma show_nat_head:
  obtains c cs where "show_nat n = c # cs" "is_digit c"
  using show_nat_digits [of n] show_nat_nonempty [of n]
  by (cases "show_nat n") auto

lemma long_from_string_nat: "long_from_string (ascii (show_nat n)) = Some (int n)"
proof -
  obtain c cs where s: "show_nat n = c # cs" and c: "is_digit c"
    by (rule show_nat_head)
  define d :: nat where "d = of_char c"
  have d: "48 \<le> d" "d \<le> 57" using c by (simp_all add: d_def is_digit_def)
  have a: "ascii (show_nat n) = d # ascii cs" by (simp add: s ascii_def d_def)
  have sc: "scan 0 False (d # ascii cs) = Some (n, [])"
    using scan_show_nat [of 0 False n "[]"] unfolding a by simp
  have dv: "digit_value d \<noteq> None" using d by (simp add: digit_value_def)
  show ?thesis
    unfolding a long_from_string_def using d dv sc
    by (simp add: py_isspace_def Let_def)
qed

lemma long_from_string_neg:
  "long_from_string (45 # ascii (show_nat n)) = Some (- int n)"
proof -
  obtain c cs where s: "show_nat n = c # cs" and c: "is_digit c"
    by (rule show_nat_head)
  define d :: nat where "d = of_char c"
  have d: "48 \<le> d" "d \<le> 57" using c by (simp_all add: d_def is_digit_def)
  have a: "ascii (show_nat n) = d # ascii cs" by (simp add: s ascii_def d_def)
  have sc: "scan 0 False (d # ascii cs) = Some (n, [])"
    using scan_show_nat [of 0 False n "[]"] unfolding a by simp
  have dv: "digit_value d \<noteq> None" using d by (simp add: digit_value_def)
  show ?thesis
    unfolding a long_from_string_def using d dv sc
    by (simp add: py_isspace_def Let_def)
qed

lemma long_from_string_show_int: "long_from_string (ascii (show_int i)) = Some i"
proof (cases "i < 0")
  case True
  then show ?thesis
    using long_from_string_neg [of "nat (- i)"] by (simp add: show_int_def ascii_def)
next
  case False
  then show ?thesis
    using long_from_string_nat [of "nat i"] by (simp add: show_int_def)
qed

lemma show_int_is_ascii: "is_ascii (show_int i)"
proof -
  have "list_all (\<lambda>c. (of_char c :: nat) < 128) (show_nat n)" for n
    using show_nat_digits [of n] by (induction "show_nat n" arbitrary: n) (auto simp: is_digit_def list_all_iff)
  then show ?thesis by (simp add: is_ascii_def show_int_def)
qed

lemma transform_ascii: "list_all (\<lambda>c. c < 127) t \<Longrightarrow> transform E t = t"
  by (induction t) simp_all

lemma show_int_below_127: "list_all (\<lambda>c. c < 127) (ascii (show_int i))"
proof -
  have "list_all (\<lambda>c. c < 127) (ascii (show_nat n))" for n
    using show_nat_digits [of n] by (auto simp: is_digit_def list_all_iff ascii_def)
  then show ?thesis by (simp add: show_int_def ascii_def)
qed

lemma py_int_show_int: "py_int E (ascii (show_int i)) = Inr i"
  by (simp add: py_int_def transform_ascii show_int_below_127 long_from_string_show_int)

lemma decode_points_ascii: "list_all (\<lambda>c. c < 128) t \<Longrightarrow> decode_points t = Some t"
  by (induction t) simp_all

lemma bytes_decode_ascii: "is_ascii s \<Longrightarrow> bytes_decode (PBytes s) = Inr (ascii s)"
proof -
  assume "is_ascii s"
  then have "list_all (\<lambda>c. c < 128) (map of_char s :: nat list)"
    by (simp add: is_ascii_def list_all_iff)
  then show ?thesis by (simp add: bytes_decode_def decode_points_ascii ascii_def)
qed

lemma foldl_digits_show_nat:
  "foldl (\<lambda>a c. a * 10 + (of_char c - 48)) acc (show_nat n) = acc * 10 ^ length (show_nat n) + n"
proof (induction n arbitrary: acc rule: show_nat.induct)
  case (1 n)
  show ?case
  proof (cases "n < 10")
    case True
    then have s: "show_nat n = [char_of (48 + n)]" by (subst show_nat.simps) simp
    show ?thesis using True unfolding s by simp
  next
    case False
    then have s: "show_nat n = show_nat (n div 10) @ [char_of (48 + n mod 10)]"
      by (subst show_nat.simps) simp
    have d: "of_char (char_of (48 + n mod 10)) = 48 + n mod 10"
    proof -
      have "n mod 10 < 10" by simp
      then show ?thesis by simp
    qed
    show ?thesis
      unfolding s using 1 [OF False] by (simp add: d algebra_simps)
  qed
qed

lemma show_nat_no_minus: "show_nat n = c # cs \<Longrightarrow> c \<noteq> CHR ''-''"
  using show_nat_digits [of n] by (auto simp: is_digit_def)

lemma string2ll_show_int: "string2ll (show_int i) = Some i"
proof (cases "i < 0")
  case True
  define n where "n = nat (- i)"
  have s: "show_int i = CHR ''-'' # show_nat n" using True by (simp add: show_int_def n_def)
  have v: "foldl (\<lambda>a c. a * 10 + (of_char c - 48)) 0 (show_nat n) = n"
    using foldl_digits_show_nat [of 0 n] by simp
  have i: "- int n = i" using True by (simp add: n_def)
  show ?thesis
    unfolding string2ll_def s [symmetric]
    unfolding s using show_nat_digits [of n] show_nat_nonempty [of n] v
    by (simp add: Let_def i s)
next
  case False
  define n where "n = nat i"
  have s: "show_int i = show_nat n" using False by (simp add: show_int_def n_def)
  obtain c cs where h: "show_nat n = c # cs" and c: "is_digit c"
    by (rule show_nat_head)
  have m: "c \<noteq> CHR ''-''" using h by (rule show_nat_no_minus)
  have v: "foldl (\<lambda>a c. a * 10 + (of_char c - 48)) 0 (show_nat n) = n"
    using foldl_digits_show_nat [of 0 n] by simp
  have i: "int n = i" using False by (simp add: n_def)
  have neg: "(case show_nat n of [] \<Rightarrow> False | c # _ \<Rightarrow> c = CHR ''-'') = False"
    using h m by simp
  show ?thesis
    unfolding string2ll_def s neg using show_nat_digits [of n] show_nat_nonempty [of n] v
    by (simp add: Let_def i s [symmetric])
qed

lemma ascii_scalar: "c < 128 \<Longrightarrow> scalar c"
  by (simp add: scalar_def surrogate_def)

lemma byte_scalar: "c < 256 \<Longrightarrow> scalar c"
  by (simp add: scalar_def surrogate_def)

lemma encode_point_scalar: "scalar c \<Longrightarrow> \<exists>bs. encode_point c = Some bs"
  by (simp add: encode_point_def scalar_def)

lemma encode_points_scalar: "list_all scalar t \<Longrightarrow> \<exists>bs. encode_points t = Some bs"
proof (induction t)
  case Nil
  then show ?case by simp
next
  case (Cons c cs)
  from Cons.prems have "scalar c" "list_all scalar cs" by simp_all
  then obtain b r where "encode_point c = Some b" "encode_points cs = Some r"
    using encode_point_scalar [of c] Cons.IH by blast
  then show ?case by simp
qed

lemma str_encode_scalar: "list_all scalar t \<Longrightarrow> \<exists>b. str_encode t = Inr b"
  using encode_points_scalar [of t] by (auto simp: str_encode_def)

lemma hexdigit_ascii: "d < 16 \<Longrightarrow> hexdigit d < 128"
  by (simp add: hexdigit_def)

lemma hex_ascii: "list_all (\<lambda>c. c < 128) (hex w n)"
  by (simp add: hex_def list_all_iff hexdigit_ascii)

lemma hex_scalar: "list_all scalar (hex w n)"
  using hex_ascii [of w n] by (auto simp: list_all_iff ascii_scalar)

lemma length_hex: "length (hex w n) = w"
  by (simp add: hex_def)

lemma pick_quote_ascii: "pick_quote s < 128"
  by (simp add: pick_quote_def)

lemma escape_str_scalar: "scalar ch \<Longrightarrow> q < 128 \<Longrightarrow> list_all scalar (escape_str E q ch)"
  by (simp add: escape_str_def hex_scalar ascii_scalar)

lemma repr_str_scalar:
  assumes "list_all scalar t"
  shows "list_all scalar (repr_str E t)"
proof -
  have "list_all scalar (concat (map (escape_str E q) t))" if "q < 128" for q
    using assms that by (induction t) (simp_all add: escape_str_scalar)
  then show ?thesis
    by (simp add: repr_str_def Let_def pick_quote_ascii ascii_scalar)
qed

lemma escape_bytes_scalar: "c < 256 \<Longrightarrow> q < 128 \<Longrightarrow> list_all scalar (escape_bytes q c)"
  by (simp add: escape_bytes_def hex_scalar ascii_scalar byte_scalar)

lemma repr_bytes_scalar: "list_all scalar (repr_bytes b)"
proof -
  have "list_all scalar (concat (map (escape_bytes q) (map of_char b)))" if "q < 128" for q
    using that by (induction b) (simp_all add: escape_bytes_scalar)
  then show ?thesis
    by (simp add: repr_bytes_def Let_def pick_quote_ascii ascii_scalar)
qed

lemma ascii_is_scalar: "list_all scalar (ascii s)"
  by (simp add: ascii_def list_all_iff byte_scalar)

lemma py_repr_scalar: "supported v \<Longrightarrow> list_all scalar (py_repr E v)"
  by (cases v) (simp_all add: supported_def py_repr_def repr_str_scalar repr_bytes_scalar ascii_is_scalar)

lemma str_tuple_scalar: "supported v \<Longrightarrow> list_all scalar (str_tuple E [v])"
  by (simp add: str_tuple_def py_repr_scalar ascii_is_scalar)

lemma supported_input: "supported v \<Longrightarrow> \<exists>i. encode E (PStr (str_tuple E [v])) = Inr i"
  by (simp add: encode_def str_tuple_scalar str_encode_scalar)

lemma supported_encode: "supported v \<Longrightarrow> \<exists>b. encode E v = Inr b"
  by (cases v)
     (simp_all add: supported_def encode_def py_repr_def str_encode_scalar ascii_is_scalar)

lemma list_all_take: "list_all P xs \<Longrightarrow> list_all P (take n xs)"
  by (auto simp: list_all_iff dest: in_set_takeD)

lemma list_all_drop: "list_all P xs \<Longrightarrow> list_all P (drop n xs)"
  by (auto simp: list_all_iff dest: in_set_dropD)

lemma str_uuid_ascii: "list_all (\<lambda>c. c < 128) (str_uuid u)"
  by (simp add: str_uuid_def Let_def list_all_take list_all_drop hex_ascii)

lemma length_str_uuid: "length (str_uuid u) = 36"
  by (simp add: str_uuid_def Let_def length_hex)

lemma encode_uuid: "encode E (PStr (str_uuid u)) = Inr (map char_of (str_uuid u))"
  by (simp add: encode_def str_encode_ascii str_uuid_ascii)

lemma uuid_key_fresh:
  "map char_of (str_uuid u) \<noteq> ''Cache.store''"
  "map char_of (str_uuid u) \<noteq> ''Cache.store:inputs''"
  "map char_of (str_uuid u) \<noteq> ''Cache.store:outputs''"
proof -
  have "length (map char_of (str_uuid u)) = 36" by (simp add: length_str_uuid)
  then show "map char_of (str_uuid u) \<noteq> ''Cache.store''"
    "map char_of (str_uuid u) \<noteq> ''Cache.store:inputs''"
    "map char_of (str_uuid u) \<noteq> ''Cache.store:outputs''"
    by auto
qed

lemma string2ll_canonical: "string2ll b = Some n \<Longrightarrow> b = show_int n"
  by (auto simp: string2ll_def Let_def split: if_splits)

lemma key_counter: "encode E (PStr (ascii ''Cache.store'')) = Inr ''Cache.store''"
  by (simp add: encode_def str_encode_ascii_literal is_ascii_def)

lemma key_inputs: "encode E (PStr (ascii ''Cache.store'' @ ascii '':inputs'')) = Inr ''Cache.store:inputs''"
  by (simp add: encode_def ascii_append str_encode_ascii_literal is_ascii_def)

lemma key_outputs: "encode E (PStr (ascii ''Cache.store'' @ ascii '':outputs'')) = Inr ''Cache.store:outputs''"
  by (simp add: encode_def ascii_append str_encode_ascii_literal is_ascii_def)

lemma rpush_list:
  "holds_list s k l \<Longrightarrow>
   exec_rpush k v s =
     (Inr (length l + 1), \<lparr>db = (db s)(k \<mapsto> RList (l @ [v])), log = log s @ [RPUSH k v]\<rparr>)"
  by (auto simp: holds_list_def exec_rpush_def received_def Let_def
           split: option.splits rvalue.splits)

lemma incr_count:
  "holds_count s k n \<Longrightarrow>
   exec_incr k s =
     (Inr (n + 1), \<lparr>db = (db s)(k \<mapsto> RString (show_int (n + 1))), log = log s @ [INCR k]\<rparr>)"
  by (auto simp: holds_count_def exec_incr_def received_def Let_def
           split: option.splits rvalue.splits)

lemma set_value:
  "exec_set k b s = (Inr (), \<lparr>db = (db s)(k \<mapsto> RString b), log = log s @ [SET k b]\<rparr>)"
  by (simp add: exec_set_def received_def)

lemma store_step:
  assumes ins: "holds_list s ''Cache.store:inputs'' ins"
    and outs: "holds_list s ''Cache.store:outputs'' outs"
    and cnt: "holds_count s ''Cache.store'' n"
    and i: "encode E (PStr (str_tuple E [v])) = Inr i"
    and b: "encode E v = Inr b"
  shows "call (Cache_store E rnd) [v] s =
     (Inr (PStr (random_key rnd)),
      \<lparr>db = (db s)(''Cache.store:inputs'' \<mapsto> RList (ins @ [i]),
                  ''Cache.store'' \<mapsto> RString (show_int (n + 1)),
                  map char_of (random_key rnd) \<mapsto> RString b,
                  ''Cache.store:outputs'' \<mapsto> RList (outs @ [map char_of (random_key rnd)])),
       log = log s @ [RPUSH ''Cache.store:inputs'' i, INCR ''Cache.store'',
                      SET (map char_of (random_key rnd)) b,
                      RPUSH ''Cache.store:outputs'' (map char_of (random_key rnd))]\<rparr>)"
proof -
  define kt where "kt = random_key rnd"
  define kb where "kb = map char_of kt"
  define s1 where "s1 = \<lparr>db = (db s)(''Cache.store:inputs'' \<mapsto> RList (ins @ [i])),
                          log = log s @ [RPUSH ''Cache.store:inputs'' i]\<rparr>"
  define s2 where "s2 = \<lparr>db = (db s1)(''Cache.store'' \<mapsto> RString (show_int (n + 1))),
                          log = log s1 @ [INCR ''Cache.store'']\<rparr>"
  define s3 where "s3 = \<lparr>db = (db s2)(kb \<mapsto> RString b), log = log s2 @ [SET kb b]\<rparr>"
  define s4 where "s4 = \<lparr>db = (db s3)(''Cache.store:outputs'' \<mapsto> RList (outs @ [kb])),
                          log = log s3 @ [RPUSH ''Cache.store:outputs'' kb]\<rparr>"
  have fresh: "kb \<noteq> ''Cache.store''" "kb \<noteq> ''Cache.store:inputs''" "kb \<noteq> ''Cache.store:outputs''"
    unfolding kb_def kt_def random_key_def by (rule uuid_key_fresh)+
  have kenc: "encode E (PStr kt) = Inr kb"
    unfolding kb_def kt_def random_key_def by (rule encode_uuid)
  have 1: "Redis_rpush E (ascii ''Cache.store'' @ ascii '':inputs'') (PStr (str_tuple E [v])) s
           = (Inr (length ins + 1), s1)"
    unfolding Redis_rpush_def packed_def key_inputs i s1_def
    using rpush_list [OF ins] by simp
  have c1: "holds_count s1 ''Cache.store'' n"
    unfolding s1_def using cnt by (simp add: holds_count_def)
  have 2: "Redis_incr E (ascii ''Cache.store'') s1 = (Inr (n + 1), s2)"
    unfolding Redis_incr_def packed_def key_counter s2_def
    using incr_count [OF c1] by simp
  have 3: "Redis_set E kt v s2 = (Inr (), s3)"
    unfolding Redis_set_def packed_def kenc b s3_def
    by (simp add: set_value)
  have o3: "holds_list s3 ''Cache.store:outputs'' outs"
    unfolding s3_def s2_def s1_def using outs fresh by (simp add: holds_list_def)
  have 4: "Redis_rpush E (ascii ''Cache.store'' @ ascii '':outputs'') (PStr kt) s3
           = (Inr (length outs + 1), s4)"
    unfolding Redis_rpush_def packed_def key_outputs kenc s4_def
    using rpush_list [OF o3] by simp
  have "call (Cache_store E rnd) [v] s = (Inr (PStr kt), s4)"
    unfolding Cache_store_def call_history_def count_calls_def store_def
    by (simp add: Let_def and_then_def 1 2 3 4 kt_def [symmetric] py_str_def)
  then show ?thesis
    unfolding s4_def s3_def s2_def s1_def kb_def kt_def by simp
qed

lemma comprehension_id: "comprehension docs = docs"
  by (induction docs) simp_all

lemma get_absent:
  "encode E (PStr key) = Inr k \<Longrightarrow> db s k = None \<Longrightarrow>
   Redis_get E key s = (Inr PNone, received (GET k) s)"
  by (simp add: Redis_get_def packed_def exec_get_def Let_def)

lemma get_string:
  "encode E (PStr key) = Inr k \<Longrightarrow> db s k = Some (RString b) \<Longrightarrow>
   Redis_get E key s = (Inr (PBytes b), received (GET k) s)"
  by (simp add: Redis_get_def packed_def exec_get_def Let_def)

lemma get_int_absent:
  "encode E (PStr key) = Inr k \<Longrightarrow> db s k = None \<Longrightarrow> fst (Cache_get_int E key s) = Inr 0"
  by (simp add: Cache_get_int_def and_then_def get_absent bytes_decode_def)

lemma get_int_string:
  "encode E (PStr key) = Inr k \<Longrightarrow> db s k = Some (RString b) \<Longrightarrow>
   fst (Cache_get_int E key s) =
     Inr (case bytes_decode (PBytes b) of
            Inl _ \<Rightarrow> 0
          | Inr t \<Rightarrow> (case py_int E t of Inl _ \<Rightarrow> 0 | Inr n \<Rightarrow> n))"
  by (simp add: Cache_get_int_def and_then_def get_string)

lemma key_plain: "encode plain (PStr (ascii ''k'')) = Inr ''k''"
  by (simp add: encode_def str_encode_ascii_literal is_ascii_def)

lemma not_utf8: "bytes_decode (PBytes [CHR 0xFF]) = Inl UnicodeDecodeError"
  by (simp add: bytes_decode_def)

lemma not_int: "bytes_decode (PBytes ''abc'') = Inr (ascii ''abc'') \<and> py_int plain (ascii ''abc'') = Inl ValueError"
  by (simp add: bytes_decode_def ascii_def py_int_def long_from_string_def py_isspace_def digit_value_def)

lemma encode_random_key: "encode E (PStr (random_key rnd)) = Inr (map char_of (random_key rnd))"
  unfolding random_key_def by (rule encode_uuid)



lemma init_state: "Cache_init s = (Inr (), \<lparr>db = Map.empty, log = log s @ [FLUSHDB]\<rparr>)"
  by (simp add: Cache_init_def Redis_flushdb_def exec_flushdb_def received_def)

lemma bookkeeping_empty: "bookkeeping \<lparr>db = Map.empty, log = c\<rparr> 0 [] []"
  by (simp add: bookkeeping_def holds_count_def holds_list_def)

lemma bookkeeping_init: "bookkeeping (snd (Cache_init s)) 0 [] []"
  by (simp add: init_state bookkeeping_empty)

lemma store_call:
  assumes "bookkeeping s n ins outs" and "supported v"
  obtains i b s' where
    "encode E (PStr (str_tuple E [v])) = Inr i"
    "encode E v = Inr b"
    "call (Cache_store E rnd) [v] s = (Inr (PStr (random_key rnd)), s')"
    "bookkeeping s' (n + 1) (ins @ [i]) (outs @ [map char_of (random_key rnd)])"
    "db s' (map char_of (random_key rnd)) = Some (RString b)"
    "log s' = log s @ [RPUSH ''Cache.store:inputs'' i, INCR ''Cache.store'',
                      SET (map char_of (random_key rnd)) b,
                      RPUSH ''Cache.store:outputs'' (map char_of (random_key rnd))]"
proof -
  obtain i where i: "encode E (PStr (str_tuple E [v])) = Inr i"
    using supported_input [OF assms(2)] by blast
  obtain b where b: "encode E v = Inr b"
    using supported_encode [OF assms(2)] by blast
  define kb where "kb = map char_of (random_key rnd)"
  have fresh: "kb \<noteq> ''Cache.store''" "kb \<noteq> ''Cache.store:inputs''" "kb \<noteq> ''Cache.store:outputs''"
    unfolding kb_def random_key_def by (rule uuid_key_fresh)+
  define s' where "s' =
      \<lparr>db = (db s)(''Cache.store:inputs'' \<mapsto> RList (ins @ [i]),
                  ''Cache.store'' \<mapsto> RString (show_int (n + 1)),
                  kb \<mapsto> RString b,
                  ''Cache.store:outputs'' \<mapsto> RList (outs @ [kb])),
       log = log s @ [RPUSH ''Cache.store:inputs'' i, INCR ''Cache.store'',
                      SET kb b, RPUSH ''Cache.store:outputs'' kb]\<rparr>"
  have c: "call (Cache_store E rnd) [v] s = (Inr (PStr (random_key rnd)), s')"
    unfolding s'_def kb_def
    using assms(1) i b by (intro store_step) (simp_all add: bookkeeping_def)
  have k: "bookkeeping s' (n + 1) (ins @ [i]) (outs @ [kb])"
    unfolding s'_def bookkeeping_def holds_count_def holds_list_def
    using fresh by (simp add: string2ll_show_int)
  have d: "db s' kb = Some (RString b)"
    unfolding s'_def using fresh by simp
  have l: "log s' = log s @ [RPUSH ''Cache.store:inputs'' i, INCR ''Cache.store'',
                      SET kb b, RPUSH ''Cache.store:outputs'' kb]"
    unfolding s'_def by simp
  show ?thesis
    using that [OF i b c] k d l unfolding kb_def by blast
qed

lemma store_sequence_general:
  assumes "list_all (\<lambda>c. supported (snd c)) calls" and "bookkeeping s n ins outs"
  shows "\<exists>s' new.
     store_sequence E calls s = (map (\<lambda>c. Inr (PStr (random_key (fst c)))) calls, s')
     \<and> bookkeeping s' (n + int (length calls)) (ins @ new)
          (outs @ map (\<lambda>c. map char_of (random_key (fst c))) calls)
     \<and> map Inr new = map (\<lambda>c. encode E (PStr (str_tuple E [snd c]))) calls"
  using assms
proof (induction calls arbitrary: s n ins outs)
  case Nil
  then show ?case by simp
next
  case (Cons c calls)
  obtain rnd v where c: "c = (rnd, v)" by (cases c)
  from Cons.prems have sup: "supported v" and rest: "list_all (\<lambda>c. supported (snd c)) calls"
    by (simp_all add: c)
  obtain i b s1 where
    i: "encode E (PStr (str_tuple E [v])) = Inr i" and
    call: "call (Cache_store E rnd) [v] s = (Inr (PStr (random_key rnd)), s1)" and
    bk: "bookkeeping s1 (n + 1) (ins @ [i]) (outs @ [map char_of (random_key rnd)])"
    using store_call [OF Cons.prems(2) sup, of E rnd] by metis
  obtain s' new where
    seq: "store_sequence E calls s1 = (map (\<lambda>c. Inr (PStr (random_key (fst c)))) calls, s')" and
    bk': "bookkeeping s' (n + 1 + int (length calls)) ((ins @ [i]) @ new)
            ((outs @ [map char_of (random_key rnd)])
             @ map (\<lambda>c. map char_of (random_key (fst c))) calls)" and
    new: "map Inr new = map (\<lambda>c. encode E (PStr (str_tuple E [snd c]))) calls"
    using Cons.IH [OF rest bk] by blast
  have "store_sequence E (c # calls) s
        = (map (\<lambda>c. Inr (PStr (random_key (fst c)))) (c # calls), s')"
    by (simp add: c call seq)
  moreover have "bookkeeping s' (n + int (length (c # calls))) (ins @ (i # new))
          (outs @ map (\<lambda>c. map char_of (random_key (fst c))) (c # calls))"
    using bk' by (simp add: c add.assoc)
  moreover have "map Inr (i # new) = map (\<lambda>c. encode E (PStr (str_tuple E [snd c]))) (c # calls)"
    using new i by (simp add: c)
  ultimately show ?case by blast
qed

lemma slice_all: "slice l 0 (- 1) = l"
  by (cases l) (simp_all add: slice_def Let_def)

lemma lrange_holds:
  "encode E (PStr name) = Inr k \<Longrightarrow> holds_list s k l \<Longrightarrow>
   Redis_lrange E name 0 (- 1) s = (Inr l, received (LRANGE k 0 (- 1)) s)"
  by (auto simp: Redis_lrange_def packed_def exec_lrange_def holds_list_def slice_all Let_def
           split: option.splits rvalue.splits)

lemma get_int_count:
  assumes "encode E (PStr name) = Inr k" and "holds_count s k n"
  shows "fst (Cache_get_int E name s) = Inr n"
proof (cases "db s k")
  case None
  then show ?thesis
    using assms by (simp add: get_int_absent holds_count_def)
next
  case (Some x)
  then obtain b where x: "db s k = Some (RString b)" and n: "string2ll b = Some n"
    using assms(2) by (auto simp: holds_count_def split: rvalue.splits)
  have b: "b = show_int n" using n by (rule string2ll_canonical)
  show ?thesis
    using get_int_string [OF assms(1) x]
    by (simp add: b bytes_decode_ascii show_int_is_ascii py_int_show_int)
qed

lemma upt32: "[0..<32] = [0,1,2,3,4,5,6,7,8,9,10,11,12,13,14,15,16,17,18,19,20,21,22,23,24,25,26,27,28,29,30,31::nat]"
  by code_simp

lemma hex_five: "hex 32 0x40008000000000000005 = ascii ''00000000000040008000000000000005''"
  by (simp add: hex_def hexdigit_def ascii_def upt32)

lemma random_key_five: "random_key 5 = ascii ''00000000-0000-4000-8000-000000000005''"
  by (simp add: random_key_def str_uuid_def uuid4_def Let_def hex_five) (simp add: ascii_def)

lemma char_of_ascii: "map char_of (ascii s) = s"
  by (induction s) (simp_all add: ascii_def)

lemma key_bytes_five: "map char_of (random_key 5) = ''00000000-0000-4000-8000-000000000005''"
  by (simp only: random_key_five char_of_ascii)

lemma show_int_42: "show_int 42 = ''42''"
  by code_simp

lemma input_42: "encode plain (PStr (str_tuple plain [PInt 42])) = Inr ''(42,)''"
  by (simp add: str_tuple_def py_repr_def ascii_append encode_def show_int_42
      str_encode_ascii_literal is_ascii_def)

lemma value_42: "encode plain (PInt 42) = Inr ''42''"
  by (simp add: py_repr_def encode_def str_encode_ascii_literal is_ascii_def show_int_42)

lemma bookkeeping_blank: "bookkeeping blank 0 [] []"
  unfolding blank_def by (rule bookkeeping_empty)

lemma supported_42: "supported (PInt 42)"
  by (simp add: supported_def)

lemma store_42_log:
  "log (snd (call (Cache_store plain 5) [PInt 42] blank)) =
     [RPUSH ''Cache.store:inputs'' ''(42,)'',
      INCR ''Cache.store'',
      SET ''00000000-0000-4000-8000-000000000005'' ''42'',
      RPUSH ''Cache.store:outputs'' ''00000000-0000-4000-8000-000000000005'']"
proof -
  obtain i b s' where
    "encode plain (PStr (str_tuple plain [PInt 42])) = Inr i"
    "encode plain (PInt 42) = Inr b"
    "call (Cache_store plain 5) [PInt 42] blank = (Inr (PStr (random_key 5)), s')"
    "log s' = log blank @ [RPUSH ''Cache.store:inputs'' i, INCR ''Cache.store'',
                      SET (map char_of (random_key 5)) b,
                      RPUSH ''Cache.store:outputs'' (map char_of (random_key 5))]"
    using store_call [OF bookkeeping_blank supported_42, of plain 5] by metis
  then show ?thesis
    by (simp add: input_42 value_42 key_bytes_five blank_def)
qed

lemma supported_foo: "supported (PStr (ascii ''foo''))"
  by (simp add: supported_def ascii_is_scalar)

lemma two_calls_supported:
  "list_all (\<lambda>c. supported (snd c)) [(5, PInt 42), (6, PStr (ascii ''foo''))]"
  by (simp add: supported_42 supported_foo)

lemma get_raw:
  "encode E (PStr key) = Inr k \<Longrightarrow> db s k = Some (RString b) \<Longrightarrow>
   fst (Cache_get E key None s) = Inr (PBytes b)"
  by (simp add: Cache_get_def and_then_def get_string)

lemma get_str_string:
  "encode E (PStr key) = Inr k \<Longrightarrow> db s k = Some (RString b) \<Longrightarrow>
   fst (Cache_get_str E key s) = bytes_decode (PBytes b)"
  by (simp add: Cache_get_str_def and_then_def get_string)

lemma get_state:
  assumes "fst (Redis_get E name s) = Inr v"
  obtains k where "Redis_get E name s = (Inr v, received (GET k) s)"
proof (cases "encode E (PStr name)")
  case (Inl e)
  then show ?thesis using assms by (simp add: Redis_get_def packed_def)
next
  case (Inr k)
  then have "snd (Redis_get E name s) = received (GET k) s"
    by (simp add: Redis_get_def packed_def exec_get_def Let_def
             split: option.splits rvalue.splits)
  then have "Redis_get E name s = (Inr v, received (GET k) s)"
    using assms by (metis prod.collapse)
  then show ?thesis by (rule that)
qed

lemma holds_list_received: "holds_list (received c s) k l = holds_list s k l"
  by (simp add: holds_list_def received_def)

lemma replay_loop_map:
  "replay_loop f_name ps =
     map (\<lambda>(i, o'). f_name @ ascii ''(*'' @ decoded i @ ascii '') -> '' @ decoded o') ps"
  by (induction ps) auto

lemma zip_shorter:
  "zip (take (min (length xs) (length ys)) xs) (take (min (length xs) (length ys)) ys) = zip xs ys"
  by (simp add: take_zip [symmetric])

lemma replay_example_state:
  "fst (Redis_get plain (qualname (Cache_store plain 0))
     (blank\<lparr>db := [''Cache.store:inputs'' \<mapsto> RList [[CHR 0xFF], ''b''],
                   ''Cache.store:outputs'' \<mapsto> RList [''k'']]\<rparr>)) = Inr PNone"
  "encode plain (PStr (qualname (Cache_store plain 0) @ ascii '':inputs''))
     = Inr ''Cache.store:inputs''"
  "holds_list (blank\<lparr>db := [''Cache.store:inputs'' \<mapsto> RList [[CHR 0xFF], ''b''],
                   ''Cache.store:outputs'' \<mapsto> RList [''k'']]\<rparr>)
     ''Cache.store:inputs'' [[CHR 0xFF], ''b'']"
  "encode plain (PStr (qualname (Cache_store plain 0) @ ascii '':outputs''))
     = Inr ''Cache.store:outputs''"
  "holds_list (blank\<lparr>db := [''Cache.store:inputs'' \<mapsto> RList [[CHR 0xFF], ''b''],
                   ''Cache.store:outputs'' \<mapsto> RList [''k'']]\<rparr>)
     ''Cache.store:outputs'' [''k'']"
  by (simp_all add: Cache_store_def call_history_def count_calls_def store_def Let_def
      key_counter key_inputs key_outputs holds_list_def
      Redis_get_def packed_def exec_get_def blank_def)

lemma show_int_0: "show_int 0 = ''0''"
  by code_simp

section \<open>Properties\<close>

text \<open>
  Claim C9. Listing an absent collection handle gives the empty sequence and no error;
  listing a collection gives all of its documents, in the order of the cursor, nothing
  filtered, projected or cut.
\<close>

theorem C9_list_all:
  "list_all_docs None = [] \<and> list_all_docs (Some c) = documents c"
  by (simp add: list_all_docs_def find_def comprehension_id)

text \<open>
  Claim C5. \<^verbatim>\<open>get_int\<close> returns 0 and raises nothing when the key is absent, when the
  bytes it holds are not valid UTF-8, and when the decoded text is not an integer; on a key
  that is absent or holds a string it always returns an integer.
\<close>

theorem C5_get_int_fallback:
  assumes "encode E (PStr key) = Inr k"
  shows "(db s k = None \<longrightarrow> fst (Cache_get_int E key s) = Inr 0)
       \<and> (db s k = Some (RString b) \<and> bytes_decode (PBytes b) = Inl UnicodeDecodeError
            \<longrightarrow> fst (Cache_get_int E key s) = Inr 0)
       \<and> (db s k = Some (RString b) \<and> bytes_decode (PBytes b) = Inr t
            \<and> py_int E t = Inl ValueError
            \<longrightarrow> fst (Cache_get_int E key s) = Inr 0)
       \<and> (db s k = None \<or> db s k = Some (RString b)
            \<longrightarrow> (\<exists>n. fst (Cache_get_int E key s) = Inr n))"
  using assms by (auto simp: get_int_absent get_int_string)

theorem C5_get_int_fallback_witness:
  "encode plain (PStr (ascii ''k'')) = Inr ''k''
   \<and> db blank ''k'' = None
   \<and> fst (Cache_get_int plain (ascii ''k'') blank) = Inr 0
   \<and> db (blank\<lparr>db := [''k'' \<mapsto> RString [CHR 0xFF]]\<rparr>) ''k'' = Some (RString [CHR 0xFF])
   \<and> bytes_decode (PBytes [CHR 0xFF]) = Inl UnicodeDecodeError
   \<and> fst (Cache_get_int plain (ascii ''k'') (blank\<lparr>db := [''k'' \<mapsto> RString [CHR 0xFF]]\<rparr>)) = Inr 0
   \<and> db (blank\<lparr>db := [''k'' \<mapsto> RString ''abc'']\<rparr>) ''k'' = Some (RString ''abc'')
   \<and> bytes_decode (PBytes ''abc'') = Inr (ascii ''abc'')
   \<and> py_int plain (ascii ''abc'') = Inl ValueError
   \<and> fst (Cache_get_int plain (ascii ''k'') (blank\<lparr>db := [''k'' \<mapsto> RString ''abc'']\<rparr>)) = Inr 0"
  using C5_get_int_fallback [OF key_plain, of blank "[]" "[]"]
    C5_get_int_fallback [OF key_plain, of "blank\<lparr>db := [''k'' \<mapsto> RString [CHR 0xFF]]\<rparr>" "[CHR 0xFF]" "[]"]
    C5_get_int_fallback [OF key_plain, of "blank\<lparr>db := [''k'' \<mapsto> RString ''abc'']\<rparr>" "''abc''" "ascii ''abc''"]
    key_plain not_utf8 not_int
  by (simp add: blank_def)

text \<open>
  Claim C6. \<^verbatim>\<open>get_str\<close> on a key that is absent from the store raises (the error
  reaches the caller); it returns no text at all.
\<close>

theorem C6_get_str_absent:
  assumes "encode E (PStr key) = Inr k" and "db s k = None"
  shows "fst (Cache_get_str E key s) = Inl AttributeError"
  using assms by (simp add: Cache_get_str_def and_then_def get_absent bytes_decode_def)

theorem C6_get_str_absent_witness:
  "encode plain (PStr (ascii ''k'')) = Inr ''k'' \<and> db blank ''k'' = None
   \<and> fst (Cache_get_str plain (ascii ''k'') blank) = Inl AttributeError"
  using C6_get_str_absent [OF key_plain, of blank] key_plain
  by (simp add: blank_def)

text \<open>
  Claim C10. \<^verbatim>\<open>get\<close> on an absent key with a conversion applies the conversion to
  \<^verbatim>\<open>None\<close>, and so fails when the conversion fails there; only without a conversion
  does it return \<^verbatim>\<open>None\<close> itself.
\<close>

theorem C10_get_applies_fn_to_none:
  assumes "encode E (PStr key) = Inr k" and "db s k = None"
  shows "fst (Cache_get E key (Some fn) s) = fn PNone
       \<and> fst (Cache_get E key None s) = Inr PNone"
  using assms by (simp add: Cache_get_def and_then_def get_absent)

theorem C10_get_applies_fn_to_none_witness:
  "encode plain (PStr (ascii ''k'')) = Inr ''k'' \<and> db blank ''k'' = None
   \<and> fst (Cache_get plain (ascii ''k'') (Some (\<lambda>v. map_sum id PStr (bytes_decode v))) blank)
       = Inl AttributeError
   \<and> fst (Cache_get plain (ascii ''k'') None blank) = Inr PNone"
  using C10_get_applies_fn_to_none [OF key_plain, of blank "\<lambda>v. map_sum id PStr (bytes_decode v)"]
    key_plain
  by (simp add: blank_def bytes_decode_def)

text \<open>
  Claim C8. Constructing the cache sends the flush command: whatever the database held
  before, it is empty afterwards, so no key set before a construction is found after it,
  neither a key \<^verbatim>\<open>store\<close> made nor any other.
\<close>

theorem C8_init_flushes:
  "fst (Cache_init s) = Inr ()
   \<and> db (snd (Cache_init s)) = Map.empty
   \<and> log (snd (Cache_init s)) = log s @ [FLUSHDB]
   \<and> fst (Cache_get E (random_key rnd) None (snd (Cache_init s))) = Inr PNone
   \<and> (encode E (PStr key) = Inr k
        \<longrightarrow> fst (Cache_get E key None (snd (Cache_init s))) = Inr PNone)"
proof -
  have e: "db (snd (Cache_init s)) k' = None" for k'
    by (simp add: init_state)
  have "fst (Cache_get E key' None (snd (Cache_init s))) = Inr PNone"
    if "encode E (PStr key') = Inr k'" for key' k'
    using get_absent [OF that e] by (simp add: Cache_get_def and_then_def)
  then show ?thesis
    using encode_random_key [of E rnd] by (simp add: init_state)
qed

theorem C8_init_flushes_witness:
  "db (blank\<lparr>db := [''k'' \<mapsto> RString ''v'']\<rparr>) ''k'' = Some (RString ''v'')
   \<and> encode plain (PStr (ascii ''k'')) = Inr ''k''
   \<and> fst (Cache_get plain (ascii ''k'') None
            (snd (Cache_init (blank\<lparr>db := [''k'' \<mapsto> RString ''v'']\<rparr>)))) = Inr PNone"
  using C8_init_flushes [of "blank\<lparr>db := [''k'' \<mapsto> RString ''v'']\<rparr>" plain 0 "ascii ''k''" "''k''"]
    key_plain
  by simp

text \<open>
  Claim C1, as the code has it. From a state where the counter and the two lists are as
  the decorators leave them, a call of \<^verbatim>\<open>store\<close> with a supported value sends four
  commands, in this order: the append to the inputs list, the increment of the counter,
  the set of the value under the new key, the append of the key to the outputs list. The
  history decorator is the outer one and wraps the counting decorator, which wraps the
  body.
\<close>

theorem C1_store_command_order:
  assumes "bookkeeping s n ins outs" and "supported v"
  shows "\<exists>i b. encode E (PStr (str_tuple E [v])) = Inr i
     \<and> encode E v = Inr b
     \<and> log (snd (call (Cache_store E rnd) [v] s)) =
         log s @ [RPUSH ''Cache.store:inputs'' i,
                  INCR ''Cache.store'',
                  SET (map char_of (random_key rnd)) b,
                  RPUSH ''Cache.store:outputs'' (map char_of (random_key rnd))]"
proof -
  obtain i b s' where
    "encode E (PStr (str_tuple E [v])) = Inr i"
    "encode E v = Inr b"
    "call (Cache_store E rnd) [v] s = (Inr (PStr (random_key rnd)), s')"
    "log s' = log s @ [RPUSH ''Cache.store:inputs'' i, INCR ''Cache.store'',
                      SET (map char_of (random_key rnd)) b,
                      RPUSH ''Cache.store:outputs'' (map char_of (random_key rnd))]"
    using store_call [OF assms, of E rnd] by metis
  then show ?thesis by simp
qed

theorem C1_store_command_order_witness:
  "bookkeeping blank 0 [] [] \<and> supported (PInt 42)
   \<and> (\<exists>i b. encode plain (PStr (str_tuple plain [PInt 42])) = Inr i
     \<and> encode plain (PInt 42) = Inr b
     \<and> log (snd (call (Cache_store plain 5) [PInt 42] blank)) =
         log blank @ [RPUSH ''Cache.store:inputs'' i,
                  INCR ''Cache.store'',
                  SET (map char_of (random_key 5)) b,
                  RPUSH ''Cache.store:outputs'' (map char_of (random_key 5))])"
  using C1_store_command_order [OF bookkeeping_blank supported_42, of plain 5]
    bookkeeping_blank supported_42
  by blast

text \<open>
  The order the claim states (increment first, then the append to the inputs list) is not
  the order of the commands the server receives: the first call on an empty database sends
  the append first.
\<close>

theorem C1_counterexample:
  "log (snd (call (Cache_store plain 5) [PInt 42] blank)) =
     [RPUSH ''Cache.store:inputs'' ''(42,)'',
      INCR ''Cache.store'',
      SET ''00000000-0000-4000-8000-000000000005'' ''42'',
      RPUSH ''Cache.store:outputs'' ''00000000-0000-4000-8000-000000000005'']
   \<and> log (snd (call (Cache_store plain 5) [PInt 42] blank)) \<noteq>
     [INCR ''Cache.store'',
      RPUSH ''Cache.store:inputs'' ''(42,)'',
      SET ''00000000-0000-4000-8000-000000000005'' ''42'',
      RPUSH ''Cache.store:outputs'' ''00000000-0000-4000-8000-000000000005'']"
  by (simp add: store_42_log)



text \<open>
  Claim C3. Any number \<open>N\<close> of calls of \<^verbatim>\<open>store\<close> with supported values on a freshly
  constructed cache all return, and \<^verbatim>\<open>get_int\<close> on the name of the function then
  returns \<open>N\<close>. One call adds exactly one to the counter.
\<close>

theorem C3_call_counter:
  assumes "list_all (\<lambda>c. supported (snd c)) calls"
  shows "fst (store_sequence E calls (snd (Cache_init s0)))
           = map (\<lambda>c. Inr (PStr (random_key (fst c)))) calls
    \<and> fst (Cache_get_int E (ascii ''Cache.store'')
             (snd (store_sequence E calls (snd (Cache_init s0))))) = Inr (int (length calls))
    \<and> (bookkeeping s n ins outs \<and> supported v
        \<longrightarrow> fst (Cache_get_int E (ascii ''Cache.store'') s) = Inr n
            \<and> fst (Cache_get_int E (ascii ''Cache.store'')
                     (snd (call (Cache_store E rnd) [v] s))) = Inr (n + 1))"
proof (intro conjI impI)
  obtain s' new where
    seq: "store_sequence E calls (snd (Cache_init s0))
          = (map (\<lambda>c. Inr (PStr (random_key (fst c)))) calls, s')" and
    bk: "bookkeeping s' (0 + int (length calls)) ([] @ new)
          ([] @ map (\<lambda>c. map char_of (random_key (fst c))) calls)"
    using store_sequence_general [OF assms bookkeeping_init, of E s0] by blast
  show "fst (store_sequence E calls (snd (Cache_init s0)))
           = map (\<lambda>c. Inr (PStr (random_key (fst c)))) calls"
    by (simp add: seq)
  have "holds_count s' ''Cache.store'' (int (length calls))"
    using bk by (simp add: bookkeeping_def)
  from get_int_count [OF key_counter this]
  show "fst (Cache_get_int E (ascii ''Cache.store'')
             (snd (store_sequence E calls (snd (Cache_init s0))))) = Inr (int (length calls))"
    by (simp add: seq)
next
  assume a: "bookkeeping s n ins outs \<and> supported v"
  then have "holds_count s ''Cache.store'' n" by (simp add: bookkeeping_def)
  from get_int_count [OF key_counter this]
  show "fst (Cache_get_int E (ascii ''Cache.store'') s) = Inr n" .
next
  assume a: "bookkeeping s n ins outs \<and> supported v"
  then obtain i b s' where
    c: "call (Cache_store E rnd) [v] s = (Inr (PStr (random_key rnd)), s')" and
    bk: "bookkeeping s' (n + 1) (ins @ [i]) (outs @ [map char_of (random_key rnd)])"
    using store_call [of s n ins outs v E rnd] by metis
  have "holds_count s' ''Cache.store'' (n + 1)"
    using bk by (simp add: bookkeeping_def)
  from get_int_count [OF key_counter this]
  show "fst (Cache_get_int E (ascii ''Cache.store'')
                     (snd (call (Cache_store E rnd) [v] s))) = Inr (n + 1)"
    by (simp add: c)
qed

theorem C3_call_counter_witness:
  "list_all (\<lambda>c. supported (snd c)) [(5, PInt 42), (6, PStr (ascii ''foo''))]
   \<and> bookkeeping blank 0 [] [] \<and> supported (PInt 42)
   \<and> fst (Cache_get_int plain (ascii ''Cache.store'')
        (snd (store_sequence plain [(5, PInt 42), (6, PStr (ascii ''foo''))]
               (snd (Cache_init blank))))) = Inr 2
   \<and> fst (Cache_get_int plain (ascii ''Cache.store'') blank) = Inr 0
   \<and> fst (Cache_get_int plain (ascii ''Cache.store'')
        (snd (call (Cache_store plain 5) [PInt 42] blank))) = Inr 1"
  using C3_call_counter [OF two_calls_supported, of plain blank blank 0 "[]" "[]" "PInt 42" 5]
    two_calls_supported bookkeeping_blank supported_42
  by simp

text \<open>
  Claim C4. After \<^verbatim>\<open>store\<close> of a supported value, \<^verbatim>\<open>get\<close> on the returned key gives
  bytes from which the value is recovered: the same bytes for bytes, bytes that decode to
  the same text for text, bytes that \<^verbatim>\<open>get_int\<close> reads back as the same integer for an
  integer. For a float the bytes decode to its \<^verbatim>\<open>repr\<close>, so that \<^verbatim>\<open>get\<close> with the
  conversion to a float returns the float itself, whenever the interpreter reads the
  \<^verbatim>\<open>repr\<close> of that float back as that float (as \<^verbatim>\<open>float\<close> does for every float but a
  NaN).
\<close>

theorem C4_store_get_round_trip:
  assumes "bookkeeping s n ins outs" and "supported v"
  shows "\<exists>s' raw.
      call (Cache_store E rnd) [v] s = (Inr (PStr (random_key rnd)), s')
      \<and> fst (Cache_get E (random_key rnd) None s') = Inr (PBytes raw)
      \<and> (case v of
            PBytes b \<Rightarrow> raw = b
          | PStr t \<Rightarrow> bytes_decode (PBytes raw) = Inr t
                       \<and> fst (Cache_get_str E (random_key rnd) s') = Inr t
          | PInt i \<Rightarrow> fst (Cache_get_int E (random_key rnd) s') = Inr i
          | PFloat f \<Rightarrow> fst (Cache_get_str E (random_key rnd) s') = Inr (py_repr E (PFloat f))
                       \<and> (float_of E (py_repr E (PFloat f)) = Some f
                            \<longrightarrow> fst (Cache_get E (random_key rnd) (Some (to_float E)) s')
                                  = Inr (PFloat f))
          | PNone \<Rightarrow> False)"
proof -
  obtain i b s' where
    b: "encode E v = Inr b" and
    c: "call (Cache_store E rnd) [v] s = (Inr (PStr (random_key rnd)), s')" and
    d: "db s' (map char_of (random_key rnd)) = Some (RString b)"
    using store_call [OF assms, of E rnd] by metis
  note k = encode_random_key [of E rnd]
  have raw: "fst (Cache_get E (random_key rnd) None s') = Inr (PBytes b)"
    using get_raw [OF k d] .
  have gs: "fst (Cache_get_str E (random_key rnd) s') = bytes_decode (PBytes b)"
    using get_str_string [OF k d] .
  have gf: "fst (Cache_get E (random_key rnd) (Some (to_float E)) s') = to_float E (PBytes b)"
    using get_string [OF k d] by (simp add: Cache_get_def and_then_def)
  have "case v of
            PBytes b' \<Rightarrow> b = b'
          | PStr t \<Rightarrow> bytes_decode (PBytes b) = Inr t
                       \<and> fst (Cache_get_str E (random_key rnd) s') = Inr t
          | PInt i \<Rightarrow> fst (Cache_get_int E (random_key rnd) s') = Inr i
          | PFloat f \<Rightarrow> fst (Cache_get_str E (random_key rnd) s') = Inr (py_repr E (PFloat f))
                       \<and> (float_of E (py_repr E (PFloat f)) = Some f
                            \<longrightarrow> fst (Cache_get E (random_key rnd) (Some (to_float E)) s')
                                  = Inr (PFloat f))
          | PNone \<Rightarrow> False"
  proof (cases v)
    case PNone
    then show ?thesis using assms(2) by (simp add: supported_def)
  next
    case (PStr t)
    then have "str_encode t = Inr b" using b by (simp add: encode_def)
    then have "bytes_decode (PBytes b) = Inr t" by (rule decode_str_encode)
    then show ?thesis using PStr gs by simp
  next
    case (PBytes b')
    then show ?thesis using b by (simp add: encode_def)
  next
    case (PInt i)
    then have "str_encode (ascii (show_int i)) = Inr b"
      using b by (simp add: encode_def py_repr_def)
    then have "b = show_int i"
      by (simp add: str_encode_ascii_literal show_int_is_ascii)
    then have "fst (Cache_get_int E (random_key rnd) s') = Inr i"
      using get_int_string [OF k d]
      by (simp add: bytes_decode_ascii show_int_is_ascii py_int_show_int)
    then show ?thesis using PInt by simp
  next
    case (PFloat f)
    then have "str_encode (py_repr E (PFloat f)) = Inr b"
      using b by (simp add: encode_def)
    then have "bytes_decode (PBytes b) = Inr (py_repr E (PFloat f))"
      by (rule decode_str_encode)
    then show ?thesis using PFloat gs gf by (simp add: to_float_def)
  qed
  with c raw show ?thesis by blast
qed

theorem C4_store_get_round_trip_witness:
  "bookkeeping blank 0 [] [] \<and> supported (PInt 42) \<and> supported (PFloat 0)
   \<and> float_of plain (py_repr plain (PFloat 0)) = Some 0
   \<and> (\<exists>s' raw.
      call (Cache_store plain 5) [PInt 42] blank = (Inr (PStr (random_key 5)), s')
      \<and> fst (Cache_get plain (random_key 5) None s') = Inr (PBytes raw)
      \<and> fst (Cache_get_int plain (random_key 5) s') = Inr 42)
   \<and> (\<exists>s' raw.
      call (Cache_store plain 5) [PFloat 0] blank = (Inr (PStr (random_key 5)), s')
      \<and> fst (Cache_get plain (random_key 5) None s') = Inr (PBytes raw)
      \<and> fst (Cache_get plain (random_key 5) (Some (to_float plain)) s') = Inr (PFloat 0))"
proof -
  have f: "supported (PFloat 0)"
    by (simp add: supported_def)
  have r: "float_of plain (py_repr plain (PFloat 0)) = Some 0"
    by (simp add: py_repr_def plain_def)
  show ?thesis
    using C4_store_get_round_trip [OF bookkeeping_blank supported_42, of plain 5]
      C4_store_get_round_trip [OF bookkeeping_blank f, of plain 5]
      bookkeeping_blank supported_42 f r
    by simp blast
qed

text \<open>
  Claim C7. Whatever the two lists hold, \<^verbatim>\<open>replay\<close> prints, after the header, one line
  for each position up to the length of the shorter list and drops the rest of the longer
  one. The line is the name, \<^verbatim>\<open>(*\<close>, the input, \<^verbatim>\<open>) -> \<close> and the output, where an
  entry that is not valid UTF-8 is printed as the empty text and the replay goes on.
\<close>

theorem C7_replay_pairs:
  assumes "fst (Redis_get E (qualname fn) r) = Inr v"
    and "encode E (PStr (qualname fn @ ascii '':inputs'')) = Inr ki"
    and "holds_list r ki ins"
    and "encode E (PStr (qualname fn @ ascii '':outputs'')) = Inr ko"
    and "holds_list r ko outs"
  shows "fst (replay E fn r) =
      (qualname fn @ ascii '' was called ''
         @ py_str E (case bytes_decode v of Inl _ \<Rightarrow> PInt 0 | Inr t \<Rightarrow> PStr t)
         @ ascii '' times:'')
      # map (\<lambda>(i, o').
              qualname fn @ ascii ''(*''
              @ (case bytes_decode (PBytes i) of Inl _ \<Rightarrow> [] | Inr t \<Rightarrow> t)
              @ ascii '') -> ''
              @ (case bytes_decode (PBytes o') of Inl _ \<Rightarrow> [] | Inr t \<Rightarrow> t))
          (zip (take (min (length ins) (length outs)) ins)
               (take (min (length ins) (length outs)) outs))
    \<and> length (fst (replay E fn r)) = 1 + min (length ins) (length outs)
    \<and> fst (snd (replay E fn r)) = Inr ()"
proof -
  obtain k where g: "Redis_get E (qualname fn) r = (Inr v, received (GET k) r)"
    using assms(1) by (rule get_state)
  define r1 where "r1 = received (GET k) r"
  define r2 where "r2 = received (LRANGE ki 0 (- 1)) r1"
  have i: "Redis_lrange E (qualname fn @ ascii '':inputs'') 0 (- 1) r1 = (Inr ins, r2)"
    unfolding r2_def
    by (rule lrange_holds [OF assms(2)]) (simp add: r1_def holds_list_received assms(3))
  have o: "Redis_lrange E (qualname fn @ ascii '':outputs'') 0 (- 1) r2
           = (Inr outs, received (LRANGE ko 0 (- 1)) r2)"
    by (rule lrange_holds [OF assms(4)]) (simp add: r1_def r2_def holds_list_received assms(5))
  have "replay E fn r =
      ((qualname fn @ ascii '' was called ''
         @ py_str E (case bytes_decode v of Inl _ \<Rightarrow> PInt 0 | Inr t \<Rightarrow> PStr t)
         @ ascii '' times:'')
       # replay_loop (qualname fn) (zip ins outs), Inr (), received (LRANGE ko 0 (- 1)) r2)"
    unfolding replay_def by (simp add: Let_def g r1_def [symmetric] i o)
  then show ?thesis
    by (simp add: replay_loop_map zip_shorter decoded_def)
qed

theorem C7_replay_pairs_witness:
  "fst (Redis_get plain (qualname (Cache_store plain 0))
     (blank\<lparr>db := [''Cache.store:inputs'' \<mapsto> RList [[CHR 0xFF], ''b''],
                   ''Cache.store:outputs'' \<mapsto> RList [''k'']]\<rparr>)) = Inr PNone
   \<and> encode plain (PStr (qualname (Cache_store plain 0) @ ascii '':inputs''))
     = Inr ''Cache.store:inputs''
   \<and> holds_list (blank\<lparr>db := [''Cache.store:inputs'' \<mapsto> RList [[CHR 0xFF], ''b''],
                   ''Cache.store:outputs'' \<mapsto> RList [''k'']]\<rparr>)
     ''Cache.store:inputs'' [[CHR 0xFF], ''b'']
   \<and> encode plain (PStr (qualname (Cache_store plain 0) @ ascii '':outputs''))
     = Inr ''Cache.store:outputs''
   \<and> holds_list (blank\<lparr>db := [''Cache.store:inputs'' \<mapsto> RList [[CHR 0xFF], ''b''],
                   ''Cache.store:outputs'' \<mapsto> RList [''k'']]\<rparr>)
     ''Cache.store:outputs'' [''k'']
   \<and> fst (replay plain (Cache_store plain 0)
        (blank\<lparr>db := [''Cache.store:inputs'' \<mapsto> RList [[CHR 0xFF], ''b''],
                   ''Cache.store:outputs'' \<mapsto> RList [''k'']]\<rparr>))
      = [ascii ''Cache.store was called 0 times:'', ascii ''Cache.store(*) -> k'']"
proof -
  have q: "qualname (Cache_store plain 0) = ascii ''Cache.store''"
    by (simp add: Cache_store_def call_history_def count_calls_def store_def Let_def)
  have d: "bytes_decode (PBytes [CHR 0xFF]) = Inl UnicodeDecodeError"
    "bytes_decode (PBytes ''k'') = Inr (ascii ''k'')"
    "bytes_decode PNone = Inl AttributeError"
    by (simp_all add: bytes_decode_def ascii_def)
  have "fst (replay plain (Cache_store plain 0)
        (blank\<lparr>db := [''Cache.store:inputs'' \<mapsto> RList [[CHR 0xFF], ''b''],
                   ''Cache.store:outputs'' \<mapsto> RList [''k'']]\<rparr>))
      = [ascii ''Cache.store was called 0 times:'', ascii ''Cache.store(*) -> k'']"
    using C7_replay_pairs [OF replay_example_state]
    by (simp add: q d py_str_def py_repr_def show_int_0 ascii_append)
  then show ?thesis
    by (intro conjI replay_example_state)
qed

end
